theory Spec2Isabelle
  imports Main
begin

chapter \<open>AI Web Pilot: policy engine, rate limiter, redactor, bridge and dispatcher\<close>

text \<open>
  A shallow embedding of the host side of AI Web Pilot: \<^verbatim>\<open>data-redaction.ts\<close>,
  \<^verbatim>\<open>rate-limiter.ts\<close>, \<^verbatim>\<open>policy-engine.ts\<close>, \<^verbatim>\<open>bridge.ts\<close> and
  \<^verbatim>\<open>mcp-tools.ts\<close>. Every class is a record of its fields, every method a function
  that takes the object's state and returns the result together with the new state.
  \<^verbatim>\<open>Date.now()\<close> is an argument \<open>now\<close> (milliseconds, an \<open>int\<close>); a \<^verbatim>\<open>throw\<close> is the
  \<open>Inl\<close> of a sum. JavaScript strings are modelled as Isabelle strings, so the
  characters of the model are the 8-bit ones; letter case is the ASCII one.
\<close>

section \<open>JavaScript strings\<close>

definition inRange :: "char \<Rightarrow> char \<times> char \<Rightarrow> bool" where
  "inRange c r = ((of_char (fst r) :: nat) \<le> of_char c \<and> (of_char c :: nat) \<le> of_char (snd r))"

definition toLowerChar :: "char \<Rightarrow> char" where
  "toLowerChar c =
     (if inRange c (CHR ''A'', CHR ''Z'') then char_of (of_char c + (32::nat)) else c)"

definition toUpperChar :: "char \<Rightarrow> char" where
  "toUpperChar c =
     (if inRange c (CHR ''a'', CHR ''z'') then char_of (of_char c - (32::nat)) else c)"

definition toLowerCase :: "string \<Rightarrow> string" where
  "toLowerCase s = map toLowerChar s"

text \<open>\<^verbatim>\<open>s.startsWith(p)\<close>, \<^verbatim>\<open>s.endsWith(p)\<close>, \<^verbatim>\<open>s.includes(p)\<close> and \<^verbatim>\<open>s.slice(n)\<close>.\<close>

definition startsWith :: "string \<Rightarrow> string \<Rightarrow> bool" where
  "startsWith s p = (take (length p) s = p)"

definition endsWith :: "string \<Rightarrow> string \<Rightarrow> bool" where
  "endsWith s p = (length p \<le> length s \<and> drop (length s - length p) s = p)"

fun includesStr :: "string \<Rightarrow> string \<Rightarrow> bool" where
  "includesStr [] p = (p = [])"
| "includesStr (x # xs) p = (startsWith (x # xs) p \<or> includesStr xs p)"

definition slice :: "nat \<Rightarrow> string \<Rightarrow> string" where
  "slice n s = drop n s"

text \<open>The decimal numeral of a number, as in the index keys of an array.\<close>

definition digitChar :: "nat \<Rightarrow> char" where
  "digitChar d = char_of (of_char CHR ''0'' + d)"

function showNat :: "nat \<Rightarrow> string" where
  "showNat n = (if n < 10 then [digitChar n] else showNat (n div 10) @ [digitChar (n mod 10)])"
  by pat_completeness auto
termination
  by (relation "measure id") auto

declare showNat.simps [simp del]

section \<open>JSON values\<close>

text \<open>
  Tool arguments, payloads and results are JSON data. An object is the list of its own
  enumerable properties in the order of \<^verbatim>\<open>Object.entries\<close>; a missing property reads
  as \<^verbatim>\<open>undefined\<close>, which is \<open>None\<close>.
\<close>

datatype json =
    JNull
  | JBool bool
  | JNum int
  | JStr string
  | JArr "json list"
  | JObj "(string \<times> json) list"

type_synonym props = "(string \<times> json) list"

definition getProp :: "props \<Rightarrow> string \<Rightarrow> json option" where
  "getProp obj k = map_of obj k"

text \<open>
  \<^verbatim>\<open>obj[key] = value\<close> on a plain object: an existing property keeps its place, a new one
  is added at the end. The key \<^verbatim>\<open>__proto__\<close> is the accessor of \<^verbatim>\<open>Object.prototype\<close>:
  assigning to it never creates an own property.
\<close>

fun assignProp :: "string \<Rightarrow> json \<Rightarrow> props \<Rightarrow> props" where
  "assignProp k v [] = [(k, v)]"
| "assignProp k v ((k', v') # ps) =
     (if k' = k then (k, v) # ps else (k', v') # assignProp k v ps)"

definition setProp :: "string \<Rightarrow> json \<Rightarrow> props \<Rightarrow> props" where
  "setProp k v obj = (if k = ''__proto__'' then obj else assignProp k v obj)"

text \<open>JavaScript truthiness of a property that may be missing.\<close>

fun truthy :: "json option \<Rightarrow> bool" where
  "truthy None = False"
| "truthy (Some JNull) = False"
| "truthy (Some (JBool b)) = b"
| "truthy (Some (JNum n)) = (n \<noteq> 0)"
| "truthy (Some (JStr s)) = (s \<noteq> [])"
| "truthy (Some (JArr xs)) = True"
| "truthy (Some (JObj ps)) = True"

section \<open>Regular expressions\<close>

text \<open>
  The patterns of \<^verbatim>\<open>data-redaction.ts\<close> use character classes, \<^verbatim>\<open>\b\<close>, sequence and
  greedy bounded or unbounded repetition. \<open>rmatch\<close> is the backtracking matcher of
  ECMAScript on these constructs: it returns the positions at which a match that starts
  at the given position can end, in the order in which backtracking tries them, so its
  head is the match the engine reports. A position is the character before it (for
  \<^verbatim>\<open>\b\<close>) and the rest of the string.
\<close>

type_synonym cursor = "char option \<times> string"

datatype regex =
    Eps
  | Cls "(char \<times> char) list"
  | Bnd
  | Seq regex regex
  | Alt regex regex
  | Rep regex nat "nat option"

definition inClass :: "bool \<Rightarrow> (char \<times> char) list \<Rightarrow> char \<Rightarrow> bool" where
  "inClass ci rs c =
     (if ci then list_ex (inRange (toLowerChar c)) rs \<or> list_ex (inRange (toUpperChar c)) rs
      else list_ex (inRange c) rs)"

definition isWordChar :: "char \<Rightarrow> bool" where
  "isWordChar c = list_ex (inRange c)
     [(CHR ''a'', CHR ''z''), (CHR ''A'', CHR ''Z''), (CHR ''0'', CHR ''9''), (CHR ''_'', CHR ''_'')]"

definition atBoundary :: "cursor \<Rightarrow> bool" where
  "atBoundary c =
     ((case fst c of None \<Rightarrow> False | Some p \<Rightarrow> isWordChar p)
        \<noteq> (case snd c of [] \<Rightarrow> False | x # _ \<Rightarrow> isWordChar x))"

text \<open>
  Greedy repetition with at least \<open>mn\<close> and at most \<open>k\<close> further iterations. Once the
  minimum is reached an iteration that consumes nothing is rejected (the empty check of
  the ECMAScript RepeatMatcher).
\<close>

fun rep :: "(cursor \<Rightarrow> cursor list) \<Rightarrow> nat \<Rightarrow> nat \<Rightarrow> cursor \<Rightarrow> cursor list" where
  "rep f mn 0 c = (if mn = 0 then [c] else [])"
| "rep f mn (Suc k) c =
     concat (map (rep f (mn - 1) k)
               (filter (\<lambda>c'. 0 < mn \<or> length (snd c') \<noteq> length (snd c)) (f c)))
     @ (if mn = 0 then [c] else [])"

text \<open>
  An unbounded repetition on a rest of \<open>n\<close> characters makes at most \<open>mn + n\<close>
  iterations, since each iteration past the minimum consumes a character.
\<close>

primrec rmatch :: "bool \<Rightarrow> regex \<Rightarrow> cursor \<Rightarrow> cursor list" where
  "rmatch ci Eps c = [c]"
| "rmatch ci (Cls rs) c =
     (case snd c of [] \<Rightarrow> []
      | x # xs \<Rightarrow> if inClass ci rs x then [(Some x, xs)] else [])"
| "rmatch ci Bnd c = (if atBoundary c then [c] else [])"
| "rmatch ci (Seq a b) c = concat (map (rmatch ci b) (rmatch ci a c))"
| "rmatch ci (Alt a b) c = rmatch ci a c @ rmatch ci b c"
| "rmatch ci (Rep r mn mx) c =
     rep (rmatch ci r) mn (case mx of None \<Rightarrow> mn + length (snd c) | Some m \<Rightarrow> m) c"

text \<open>
  The leftmost match at or after a position: the rest of the string where the match
  starts and the rest where it ends.
\<close>

fun rsearch :: "bool \<Rightarrow> regex \<Rightarrow> char option \<Rightarrow> string \<Rightarrow> (string \<times> string) option" where
  "rsearch ci r p [] =
     (case rmatch ci r (p, []) of [] \<Rightarrow> None | c' # _ \<Rightarrow> Some ([], snd c'))"
| "rsearch ci r p (x # xs) =
     (case rmatch ci r (p, x # xs) of
        [] \<Rightarrow> rsearch ci r (Some x) xs
      | c' # _ \<Rightarrow> Some (x # xs, snd c'))"

text \<open>\<^verbatim>\<open>regex.test(s)\<close> for a regular expression without the global flag.\<close>

definition rtest :: "bool \<Rightarrow> regex \<Rightarrow> string \<Rightarrow> bool" where
  "rtest ci r s = (rsearch ci r None s \<noteq> None)"

text \<open>
  \<^verbatim>\<open>regex.test(s)\<close> for a regular expression with the global flag, whose
  \<^verbatim>\<open>lastIndex\<close> is \<open>li\<close>: the search starts at \<open>li\<close>; a match leaves \<^verbatim>\<open>lastIndex\<close> at
  its end, a failure resets it to 0. The result is the answer and the new \<^verbatim>\<open>lastIndex\<close>.
\<close>

definition testGlobal :: "regex \<Rightarrow> nat \<Rightarrow> string \<Rightarrow> bool \<times> nat" where
  "testGlobal r li s =
     (if length s < li then (False, 0)
      else case rsearch False r (if li = 0 then None else Some (s ! (li - 1))) (drop li s) of
             None \<Rightarrow> (False, 0)
           | Some m \<Rightarrow> (True, length s - length (snd m)))"

text \<open>Abbreviations for writing the patterns down.\<close>

definition lit :: "char \<Rightarrow> regex" where
  "lit c = Cls [(c, c)]"

definition literal :: "string \<Rightarrow> regex" where
  "literal s = foldr (\<lambda>c r. Seq (lit c) r) s Eps"

definition cat :: "regex list \<Rightarrow> regex" where
  "cat rs = foldr Seq rs Eps"

definition opt :: "regex \<Rightarrow> regex" where
  "opt r = Rep r 0 (Some 1)"

definition times :: "regex \<Rightarrow> nat \<Rightarrow> regex" where
  "times r n = Rep r n (Some n)"

definition digit :: regex where
  "digit = Cls [(CHR ''0'', CHR ''9'')]"

definition alnum :: regex where
  "alnum = Cls [(CHR ''A'', CHR ''Z''), (CHR ''a'', CHR ''z''), (CHR ''0'', CHR ''9'')]"

definition upperAlnum :: regex where
  "upperAlnum = Cls [(CHR ''A'', CHR ''Z''), (CHR ''0'', CHR ''9'')]"

text \<open>
  \<^verbatim>\<open>\s\<close> on the characters of the model: tab, line feed, vertical tab, form feed,
  carriage return, space and the no-break space (code 160).
\<close>

definition spaceRanges :: "(char \<times> char) list" where
  "spaceRanges =
     [(char_of (9::nat), char_of (13::nat)), (CHR '' '', CHR '' ''),
      (char_of (160::nat), char_of (160::nat))]"

definition spaceOrDash :: regex where
  "spaceOrDash = Cls (spaceRanges @ [(CHR ''-'', CHR ''-'')])"

definition phoneSep :: regex where
  "phoneSep = Cls ([(CHR ''-'', CHR ''-''), (CHR ''.'', CHR ''.'')] @ spaceRanges)"

section \<open>DataRedactor\<close>

text \<open>
  A \<^verbatim>\<open>RegExp\<close> object is its pattern and its mutable \<^verbatim>\<open>lastIndex\<close>. The patterns for
  field names are built without the global flag, so only their pattern matters.
\<close>

record RegExpObj =
  source :: regex
  lastIndex :: nat

record DataRedactor =
  sensitivePatterns :: "RegExpObj list"
  sensitiveFieldPatterns :: "regex list"

definition SENSITIVE_FIELD_PATTERNS :: "string list" where
  "SENSITIVE_FIELD_PATTERNS =
     [''password'', ''passwd'', ''pwd'', ''secret'', ''token'', ''key'', ''card'', ''cvv'',
      ''cvc'', ''ssn'', ''iban'', ''phone'', ''email'']"

text \<open>The value patterns of the constructor, in its order.\<close>

definition creditCardPattern :: regex where
  "creditCardPattern =
     cat [Bnd, times digit 4, opt spaceOrDash, times digit 4, opt spaceOrDash,
          times digit 4, opt spaceOrDash, times digit 4, Bnd]"

definition ssnPattern :: regex where
  "ssnPattern =
     cat [Bnd, times digit 3, opt (lit CHR ''-''), times digit 2, opt (lit CHR ''-''),
          times digit 4, Bnd]"

definition phonePattern :: regex where
  "phonePattern =
     cat [Bnd, opt (cat [lit CHR ''+'', lit CHR ''1'', opt phoneSep]), opt (lit CHR ''(''),
          times digit 3, opt (lit CHR '')''), opt phoneSep, times digit 3, opt phoneSep,
          times digit 4, Bnd]"

definition emailPattern :: regex where
  "emailPattern =
     cat [Bnd,
          Rep (Cls [(CHR ''A'', CHR ''Z''), (CHR ''a'', CHR ''z''), (CHR ''0'', CHR ''9''),
                    (CHR ''.'', CHR ''.''), (CHR ''_'', CHR ''_''), (CHR ''%'', CHR ''%''),
                    (CHR ''+'', CHR ''+''), (CHR ''-'', CHR ''-'')]) 1 None,
          lit CHR ''@'',
          Rep (Cls [(CHR ''A'', CHR ''Z''), (CHR ''a'', CHR ''z''), (CHR ''0'', CHR ''9''),
                    (CHR ''.'', CHR ''.''), (CHR ''-'', CHR ''-'')]) 1 None,
          lit CHR ''.'',
          Rep (Cls [(CHR ''A'', CHR ''Z''), (CHR ''|'', CHR ''|''), (CHR ''a'', CHR ''z'')]) 2 None,
          Bnd]"

definition ibanPattern :: regex where
  "ibanPattern =
     cat [Bnd, times (Cls [(CHR ''A'', CHR ''Z'')]) 2, times digit 2, times upperAlnum 4,
          times digit 7, Rep (opt upperAlnum) 0 (Some 16), Bnd]"

definition cvvPattern :: regex where
  "cvvPattern = cat [Bnd, Rep digit 3 (Some 4), Bnd]"

definition longTokenPattern :: regex where
  "longTokenPattern = cat [Bnd, Rep alnum 32 None, Bnd]"

definition stripeSecretPattern :: regex where
  "stripeSecretPattern = cat [literal ''sk_'', Rep alnum 24 None]"

definition stripePublicPattern :: regex where
  "stripePublicPattern = cat [literal ''pk_'', Rep alnum 24 None]"

definition githubTokenPattern :: regex where
  "githubTokenPattern = cat [literal ''ghp_'', times alnum 36]"

definition githubOAuthPattern :: regex where
  "githubOAuthPattern = cat [literal ''gho_'', times alnum 36]"

definition valuePatterns :: "regex list" where
  "valuePatterns =
     [creditCardPattern, ssnPattern, phonePattern, emailPattern, ibanPattern, cvvPattern,
      longTokenPattern, stripeSecretPattern, stripePublicPattern, githubTokenPattern,
      githubOAuthPattern]"

text \<open>
  The constructor. The custom patterns are given as parsed regular expressions (the
  parser of \<^verbatim>\<open>new RegExp\<close> belongs to the platform); the default field patterns are
  plain words.
\<close>

definition newDataRedactor :: "regex list \<Rightarrow> DataRedactor" where
  "newDataRedactor customPatterns =
     \<lparr>sensitivePatterns = map (\<lambda>r. \<lparr>source = r, lastIndex = 0\<rparr>) valuePatterns,
      sensitiveFieldPatterns = map literal SENSITIVE_FIELD_PATTERNS @ customPatterns\<rparr>"

definition isSensitiveField :: "DataRedactor \<Rightarrow> string \<Rightarrow> bool" where
  "isSensitiveField dr fieldName = list_ex (\<lambda>r. rtest True r fieldName) (sensitiveFieldPatterns dr)"

text \<open>
  \<^verbatim>\<open>this.sensitivePatterns.some((pattern) => pattern.test(value))\<close>: the patterns are
  tested in order up to the first that matches; each test reads and writes the
  \<^verbatim>\<open>lastIndex\<close> of its pattern.
\<close>

fun someTest :: "RegExpObj list \<Rightarrow> string \<Rightarrow> bool \<times> RegExpObj list" where
  "someTest [] s = (False, [])"
| "someTest (re # res) s =
     (case testGlobal (source re) (lastIndex re) s of
        (b, li) \<Rightarrow>
          if b then (True, re\<lparr>lastIndex := li\<rparr> # res)
          else (case someTest res s of (b', res') \<Rightarrow> (b', re\<lparr>lastIndex := li\<rparr> # res')))"

definition containsSensitiveData :: "DataRedactor \<Rightarrow> string \<Rightarrow> bool \<times> DataRedactor" where
  "containsSensitiveData dr v =
     (case someTest (sensitivePatterns dr) v of
        (b, res) \<Rightarrow> (b, dr\<lparr>sensitivePatterns := res\<rparr>))"

text \<open>The replacement callback of \<^verbatim>\<open>redactString\<close>.\<close>

definition maskMatch :: "string \<Rightarrow> string" where
  "maskMatch m =
     (if length m \<le> 4 then replicate (length m) CHR ''*''
      else hd m # replicate (length m - 2) CHR ''*'' @ [last m])"

text \<open>
  \<^verbatim>\<open>s.replace(pattern, callback)\<close> with a global pattern: the matches are found from
  left to right in the original string, each search starting where the previous match
  ended. The last argument counts the characters still covered by the match being
  replaced.
\<close>

fun replaceFrom :: "regex \<Rightarrow> char option \<Rightarrow> string \<Rightarrow> nat \<Rightarrow> string" where
  "replaceFrom r p [] k = []"
| "replaceFrom r p (x # xs) (Suc k) = replaceFrom r (Some x) xs k"
| "replaceFrom r p (x # xs) 0 =
     (case rmatch False r (p, x # xs) of
        [] \<Rightarrow> x # replaceFrom r (Some x) xs 0
      | c' # _ \<Rightarrow>
          (let n = length (x # xs) - length (snd c')
           in if n = 0 then x # replaceFrom r (Some x) xs 0
              else maskMatch (take n (x # xs)) @ replaceFrom r (Some x) xs (n - 1)))"

definition replaceAll :: "regex \<Rightarrow> string \<Rightarrow> string" where
  "replaceAll r s = replaceFrom r None s 0"

definition redactString :: "DataRedactor \<Rightarrow> string \<Rightarrow> string" where
  "redactString dr input = fold (\<lambda>re redacted. replaceAll (source re) redacted) (sensitivePatterns dr) input"

text \<open>
  \<^verbatim>\<open>redactObject\<close>: \<open>redactProps\<close> is its loop over the entries of an object, with the
  object under construction; \<open>redactIndexed\<close> is the same loop over the entries of an
  array, whose keys are its indices (an array inside an array is passed to
  \<^verbatim>\<open>redactObject\<close> and comes back as a plain object); \<open>redactValue\<close> is the case
  distinction on the value of a property that is not sensitive and \<open>redactItem\<close> the
  callback of \<^verbatim>\<open>value.map\<close>.
\<close>

fun redactValue :: "DataRedactor \<Rightarrow> json \<Rightarrow> json"
  and redactItem :: "DataRedactor \<Rightarrow> json \<Rightarrow> json"
  and redactItems :: "DataRedactor \<Rightarrow> json list \<Rightarrow> json list"
  and redactProps :: "DataRedactor \<Rightarrow> props \<Rightarrow> props \<Rightarrow> props"
  and redactIndexed :: "DataRedactor \<Rightarrow> nat \<Rightarrow> json list \<Rightarrow> props \<Rightarrow> props"
where
  "redactValue dr (JStr s) = JStr (redactString dr s)"
| "redactValue dr (JArr xs) = JArr (redactItems dr xs)"
| "redactValue dr (JObj ps) = JObj (redactProps dr ps [])"
| "redactValue dr JNull = JNull"
| "redactValue dr (JBool b) = JBool b"
| "redactValue dr (JNum n) = JNum n"
| "redactItem dr (JObj ps) = JObj (redactProps dr ps [])"
| "redactItem dr (JArr xs) = JObj (redactIndexed dr 0 xs [])"
| "redactItem dr (JStr s) = JStr (redactString dr s)"
| "redactItem dr JNull = JNull"
| "redactItem dr (JBool b) = JBool b"
| "redactItem dr (JNum n) = JNum n"
| "redactItems dr [] = []"
| "redactItems dr (x # xs) = redactItem dr x # redactItems dr xs"
| "redactProps dr [] redacted = redacted"
| "redactProps dr (kv # ps) redacted =
     redactProps dr ps
       (setProp (fst kv)
          (if isSensitiveField dr (fst kv) then JStr ''[REDACTED]'' else redactValue dr (snd kv))
          redacted)"
| "redactIndexed dr i [] redacted = redacted"
| "redactIndexed dr i (x # xs) redacted =
     redactIndexed dr (Suc i) xs
       (setProp (showNat i)
          (if isSensitiveField dr (showNat i) then JStr ''[REDACTED]'' else redactValue dr x)
          redacted)"

definition redactObject :: "DataRedactor \<Rightarrow> props \<Rightarrow> props" where
  "redactObject dr obj = redactProps dr obj []"

text \<open>What the loop of \<^verbatim>\<open>redactObject\<close> stores under a key.\<close>

definition fieldValue :: "DataRedactor \<Rightarrow> string \<Rightarrow> json \<Rightarrow> json" where
  "fieldValue dr k v = (if isSensitiveField dr k then JStr ''[REDACTED]'' else redactValue dr v)"

text \<open>
  The strings that \<^verbatim>\<open>redactObject\<close> hands to \<^verbatim>\<open>redactString\<close>: the string values
  under keys that are not sensitive, at any depth.
\<close>

fun valueStrings :: "DataRedactor \<Rightarrow> json \<Rightarrow> string list"
  and itemStrings :: "DataRedactor \<Rightarrow> json \<Rightarrow> string list"
  and itemsStrings :: "DataRedactor \<Rightarrow> json list \<Rightarrow> string list"
  and propsStrings :: "DataRedactor \<Rightarrow> props \<Rightarrow> string list"
  and indexedStrings :: "DataRedactor \<Rightarrow> nat \<Rightarrow> json list \<Rightarrow> string list"
where
  "valueStrings dr (JStr s) = [s]"
| "valueStrings dr (JArr xs) = itemsStrings dr xs"
| "valueStrings dr (JObj ps) = propsStrings dr ps"
| "valueStrings dr JNull = []"
| "valueStrings dr (JBool b) = []"
| "valueStrings dr (JNum n) = []"
| "itemStrings dr (JObj ps) = propsStrings dr ps"
| "itemStrings dr (JArr xs) = indexedStrings dr 0 xs"
| "itemStrings dr (JStr s) = [s]"
| "itemStrings dr JNull = []"
| "itemStrings dr (JBool b) = []"
| "itemStrings dr (JNum n) = []"
| "itemsStrings dr [] = []"
| "itemsStrings dr (x # xs) = itemStrings dr x @ itemsStrings dr xs"
| "propsStrings dr [] = []"
| "propsStrings dr (kv # ps) =
     (if isSensitiveField dr (fst kv) then [] else valueStrings dr (snd kv)) @ propsStrings dr ps"
| "indexedStrings dr i [] = []"
| "indexedStrings dr i (x # xs) =
     (if isSensitiveField dr (showNat i) then [] else valueStrings dr x)
     @ indexedStrings dr (Suc i) xs"


datatype riskLevel = Low | Medium | High

record SensitiveCheck =
  isSensitive :: bool
  sensitiveReason :: "string option"
  risk :: riskLevel


definition sensitive :: "string \<Rightarrow> riskLevel \<Rightarrow> SensitiveCheck" where
  "sensitive why r = \<lparr>isSensitive = True, sensitiveReason = Some why, risk = r\<rparr>"





text \<open>
  \<^verbatim>\<open>isLargePostBody\<close>. \<open>stringifyLength\<close> stands for the length of
  \<^verbatim>\<open>JSON.stringify(data)\<close>, \<open>None\<close> when it throws.
\<close>

definition isLargePostBody :: "(json \<Rightarrow> nat option) \<Rightarrow> json \<Rightarrow> bool" where
  "isLargePostBody stringifyLength d =
     (case d of
        JStr s \<Rightarrow> 8192 < length s
      | _ \<Rightarrow> (case stringifyLength d of None \<Rightarrow> False | Some n \<Rightarrow> 8192 < n))"


section \<open>RateLimiter\<close>

text \<open>
  The three maps of the class are partial functions from their string keys. The timers
  that \<^verbatim>\<open>startRequest\<close> schedules with \<^verbatim>\<open>setTimeout\<close> are kept beside them: a
  scheduled timer is its id, the request id its callback will delete and its delay.
\<close>

record RateWindow =
  count :: nat
  resetTime :: int

record ActiveRequest =
  startTime :: int
  timeoutId :: nat

record RateLimiter =
  requestCounts :: "string \<rightharpoonup> RateWindow"
  activeRequests :: "string \<rightharpoonup> ActiveRequest"
  consecutiveFailures :: "string \<rightharpoonup> nat"
  maxRequestsPerMinute :: nat
  maxRequestsPerHour :: nat
  defaultTimeoutMs :: nat
  maxConsecutiveFailures :: nat
  scheduled :: "nat \<rightharpoonup> string \<times> nat"
  nextTimeoutId :: nat

definition newRateLimiter :: "nat \<Rightarrow> nat \<Rightarrow> nat \<Rightarrow> nat \<Rightarrow> RateLimiter" where
  "newRateLimiter perMinute perHour timeoutMs maxFailures =
     \<lparr>requestCounts = Map.empty, activeRequests = Map.empty, consecutiveFailures = Map.empty,
      maxRequestsPerMinute = perMinute, maxRequestsPerHour = perHour,
      defaultTimeoutMs = timeoutMs, maxConsecutiveFailures = maxFailures,
      scheduled = Map.empty, nextTimeoutId = 0\<rparr>"

text \<open>The results of the checks share \<open>allowed\<close> and \<open>reason\<close>.\<close>

record Decision =
  allowed :: bool
  reason :: "string option"

record RateLimitResult = Decision +
  retryAfter :: "int option"

record FailureResult = Decision +
  failureCount :: "nat option"

definition minuteMs :: int where
  "minuteMs = 60 * 1000"

definition hourMs :: int where
  "hourMs = 60 * 60 * 1000"

text \<open>\<^verbatim>\<open>Math.ceil(ms / 1000)\<close> on an integer number of milliseconds.\<close>

definition ceilSeconds :: "int \<Rightarrow> int" where
  "ceilSeconds ms = - ((- ms) div 1000)"

text \<open>
  One window of \<^verbatim>\<open>checkRateLimit\<close>: the denial if the window is still running and
  its count has reached the limit.
\<close>

definition windowDenial ::
  "int \<Rightarrow> int \<Rightarrow> nat \<Rightarrow> string \<Rightarrow> RateWindow option \<Rightarrow> RateLimitResult option" where
  "windowDenial now windowMs limit unit w =
     (case w of
        None \<Rightarrow> None
      | Some d \<Rightarrow>
          if now - resetTime d < windowMs \<and> limit \<le> count d
          then Some \<lparr>allowed = False,
                     reason = Some (''Rate limit exceeded: '' @ showNat (count d) @ ''/''
                                     @ showNat limit @ '' requests per '' @ unit),
                     retryAfter = Some (ceilSeconds (windowMs - (now - resetTime d)))\<rparr>
          else None)"

definition rl_checkRateLimit :: "RateLimiter \<Rightarrow> int \<Rightarrow> string \<Rightarrow> RateLimitResult" where
  "rl_checkRateLimit rl now identifier =
     (case windowDenial now minuteMs (maxRequestsPerMinute rl) ''minute''
             (requestCounts rl (identifier @ '':minute'')) of
        Some denial \<Rightarrow> denial
      | None \<Rightarrow>
          (case windowDenial now hourMs (maxRequestsPerHour rl) ''hour''
                  (requestCounts rl (identifier @ '':hour'')) of
             Some denial \<Rightarrow> denial
           | None \<Rightarrow> \<lparr>allowed = True, reason = None, retryAfter = None\<rparr>))"

text \<open>One window of \<^verbatim>\<open>recordRequest\<close>: start a new window or count in the current one.\<close>

definition bumpWindow :: "int \<Rightarrow> int \<Rightarrow> RateWindow option \<Rightarrow> RateWindow" where
  "bumpWindow now windowMs w =
     (case w of
        None \<Rightarrow> \<lparr>count = 1, resetTime = now\<rparr>
      | Some d \<Rightarrow>
          if now - resetTime d > windowMs then \<lparr>count = 1, resetTime = now\<rparr>
          else d\<lparr>count := count d + 1\<rparr>)"

definition recordRequest :: "RateLimiter \<Rightarrow> int \<Rightarrow> string \<Rightarrow> RateLimiter" where
  "recordRequest rl now identifier =
     (let minuteKey = identifier @ '':minute'';
          rc1 = (requestCounts rl)(minuteKey \<mapsto> bumpWindow now minuteMs (requestCounts rl minuteKey));
          hourKey = identifier @ '':hour''
      in rl\<lparr>requestCounts := rc1(hourKey \<mapsto> bumpWindow now hourMs (rc1 hourKey))\<rparr>)"


definition requestTimeout :: "RateLimiter \<Rightarrow> nat \<Rightarrow> RateLimiter" where
  "requestTimeout rl tid =
     (case scheduled rl tid of
        None \<Rightarrow> rl
      | Some t \<Rightarrow>
          rl\<lparr>scheduled := (scheduled rl)(tid := None),
             activeRequests := (activeRequests rl)(fst t := None)\<rparr>)"

definition completeRequest :: "RateLimiter \<Rightarrow> string \<Rightarrow> bool \<Rightarrow> RateLimiter" where
  "completeRequest rl requestId success =
     (let rl1 = (case activeRequests rl requestId of
                   None \<Rightarrow> rl
                 | Some requestData \<Rightarrow>
                     rl\<lparr>scheduled := (scheduled rl)(timeoutId requestData := None),
                        activeRequests := (activeRequests rl)(requestId := None)\<rparr>)
      in if success
         then rl1\<lparr>consecutiveFailures := (consecutiveFailures rl1)(requestId := None)\<rparr>
         else rl1\<lparr>consecutiveFailures :=
                    (consecutiveFailures rl1)
                      (requestId \<mapsto> (case consecutiveFailures rl1 requestId of
                                      None \<Rightarrow> 0 | Some n \<Rightarrow> n) + 1)\<rparr>)"

definition rl_checkFailureThreshold :: "RateLimiter \<Rightarrow> string \<Rightarrow> FailureResult" where
  "rl_checkFailureThreshold rl identifier =
     (let n = (case consecutiveFailures rl identifier of None \<Rightarrow> 0 | Some n \<Rightarrow> n)
      in if maxConsecutiveFailures rl \<le> n
         then \<lparr>allowed = False,
               reason = Some (''Too many consecutive failures: '' @ showNat n @ ''/''
                               @ showNat (maxConsecutiveFailures rl)),
               failureCount = Some n\<rparr>
         else \<lparr>allowed = True, reason = None, failureCount = Some n\<rparr>)"

definition cancelRequest :: "RateLimiter \<Rightarrow> string \<Rightarrow> bool \<times> RateLimiter" where
  "cancelRequest rl requestId =
     (case activeRequests rl requestId of
        None \<Rightarrow> (False, rl)
      | Some requestData \<Rightarrow>
          (True, rl\<lparr>scheduled := (scheduled rl)(timeoutId requestData := None),
                    activeRequests := (activeRequests rl)(requestId := None)\<rparr>))"

definition resetAllFailures :: "RateLimiter \<Rightarrow> RateLimiter" where
  "resetAllFailures rl = rl\<lparr>consecutiveFailures := Map.empty\<rparr>"

section \<open>PolicyEngine\<close>

text \<open>
  In a \<open>DomainPolicy\<close> the fields \<^verbatim>\<open>read\<close> and \<^verbatim>\<open>write\<close> are called \<open>canRead\<close>
  and \<open>canWrite\<close>, the optional field \<^verbatim>\<open>requiresApproval\<close> is called
  \<open>approval\<close>, and the method \<^verbatim>\<open>requiresApproval\<close> of the engine
  \<open>requiresApprovalFor\<close>: the name \<open>requiresApproval\<close> is the field of a decision.
  The allowlist is the list of the entries of the configured object, in the order of
  \<^verbatim>\<open>Object.entries\<close>. Of the configuration only the fields the engine reads are kept;
  its sensitive patterns are parsed regular expressions.
\<close>

record DomainPolicy =
  canRead :: bool
  canWrite :: bool
  approval :: "bool option"
  maxStepsPerHour :: "nat option"

record Configuration =
  allowlist :: "(string \<times> DomainPolicy) list"
  configPatterns :: "regex list"
  stepBudget :: nat
  toolTimeoutMs :: nat

record PolicyDecision = Decision +
  requiresApproval :: bool
  metadata :: "props option"

datatype operation = Read | Write

record PolicyEngine =
  config :: Configuration
  stepCounts :: "string \<rightharpoonup> RateWindow"
  toolCallCounts :: "string \<rightharpoonup> nat"
  lastToolCallTime :: int
  dataRedactor :: DataRedactor
  rateLimiter :: RateLimiter
  globalStepCount :: nat
  sessionStartTime :: int

definition newPolicyEngine :: "Configuration \<Rightarrow> int \<Rightarrow> PolicyEngine" where
  "newPolicyEngine cfg now =
     \<lparr>config = cfg, stepCounts = Map.empty, toolCallCounts = Map.empty, lastToolCallTime = 0,
      dataRedactor = newDataRedactor (configPatterns cfg),
      rateLimiter = newRateLimiter 60 1000 (toolTimeoutMs cfg) 5,
      globalStepCount = 0, sessionStartTime = now\<rparr>"

definition RESTRICTED_DOMAINS :: "string list" where
  "RESTRICTED_DOMAINS =
     [''chrome://'', ''chrome-extension://'', ''moz-extension://'', ''edge://'', ''about:'',
      ''file://'']"

definition CHECKOUT_DOMAINS :: "string list" where
  "CHECKOUT_DOMAINS = [''checkout'', ''payment'', ''billing'', ''cart'', ''order'', ''purchase'']"

definition operationName :: "operation \<Rightarrow> string" where
  "operationName op = (case op of Read \<Rightarrow> ''read'' | Write \<Rightarrow> ''write'')"

text \<open>
  The allowlist is a plain object, so \<^verbatim>\<open>allowlist[domain]\<close> reads an own entry or,
  when there is none under that name, a property that the object inherits from
  \<^verbatim>\<open>Object.prototype\<close>: one of its methods, its \<^verbatim>\<open>constructor\<close>, or the prototype
  itself under \<^verbatim>\<open>__proto__\<close>. The value that \<^verbatim>\<open>getDomainPolicy\<close> returns is
  therefore a policy of the configuration (or the default one), or such an inherited
  value, which is truthy and has none of the properties of a policy.
\<close>

definition objectPrototypeKeys :: "string list" where
  "objectPrototypeKeys =
     [''constructor'', ''__defineGetter__'', ''__defineSetter__'', ''hasOwnProperty'',
      ''__lookupGetter__'', ''__lookupSetter__'', ''isPrototypeOf'', ''propertyIsEnumerable'',
      ''toString'', ''valueOf'', ''__proto__'', ''toLocaleString'']"

datatype resolvedPolicy = Own DomainPolicy | Inherited string

definition lookupAllowlist :: "(string \<times> DomainPolicy) list \<Rightarrow> string \<Rightarrow> resolvedPolicy option" where
  "lookupAllowlist entries domain =
     (case map_of entries domain of
        Some policy \<Rightarrow> Some (Own policy)
      | None \<Rightarrow> if domain \<in> set objectPrototypeKeys then Some (Inherited domain) else None)"

text \<open>
  What the engine reads of the resolved value: the truthiness of \<^verbatim>\<open>policy.read\<close> or
  \<^verbatim>\<open>policy.write\<close>, \<^verbatim>\<open>policy.requiresApproval\<close> and \<^verbatim>\<open>policy.maxStepsPerHour\<close>. In
  the metadata of a decision the value is its own enumerable properties, of which an
  inherited value has none.
\<close>

fun policyAllows :: "resolvedPolicy \<Rightarrow> operation \<Rightarrow> bool" where
  "policyAllows (Own p) Read = canRead p"
| "policyAllows (Own p) Write = canWrite p"
| "policyAllows (Inherited k) op = False"

fun policyApproval :: "resolvedPolicy \<Rightarrow> bool option" where
  "policyApproval (Own p) = approval p"
| "policyApproval (Inherited k) = None"

fun policyMaxSteps :: "resolvedPolicy \<Rightarrow> nat option" where
  "policyMaxSteps (Own p) = maxStepsPerHour p"
| "policyMaxSteps (Inherited k) = None"

fun policyJson :: "resolvedPolicy \<Rightarrow> json" where
  "policyJson (Own p) =
     JObj ([(''read'', JBool (canRead p)), (''write'', JBool (canWrite p))]
           @ (case approval p of None \<Rightarrow> [] | Some b \<Rightarrow> [(''requiresApproval'', JBool b)])
           @ (case maxStepsPerHour p of None \<Rightarrow> [] | Some n \<Rightarrow> [(''maxStepsPerHour'', JNum (int n))]))"
| "policyJson (Inherited k) = JObj []"

text \<open>
  \<^verbatim>\<open>getDomainPolicy\<close>: the value under the name of the domain, else the policy of the
  first wildcard entry whose base (the entry without its leading \<^verbatim>\<open>*.\<close>) the domain
  ends with, else no access.
\<close>

definition defaultPolicy :: DomainPolicy where
  "defaultPolicy = \<lparr>canRead = False, canWrite = False, approval = None, maxStepsPerHour = None\<rparr>"

definition wildcardMatches :: "string \<Rightarrow> string \<Rightarrow> bool" where
  "wildcardMatches domain allowedDomain =
     (startsWith allowedDomain ''*.'' \<and> endsWith domain (slice 2 allowedDomain))"

definition getDomainPolicy :: "Configuration \<Rightarrow> string \<Rightarrow> resolvedPolicy" where
  "getDomainPolicy cfg domain =
     (case lookupAllowlist (allowlist cfg) domain of
        Some policy \<Rightarrow> policy
      | None \<Rightarrow>
          (case find (\<lambda>entry. wildcardMatches domain (fst entry)) (allowlist cfg) of
             Some entry \<Rightarrow> Own (snd entry)
           | None \<Rightarrow> Own defaultPolicy))"

definition isSensitiveDomain :: "string \<Rightarrow> bool" where
  "isSensitiveDomain domain =
     list_ex (\<lambda>keyword. includesStr (toLowerCase domain) keyword)
       [''bank'', ''banking'', ''finance'', ''payment'', ''paypal'', ''stripe'', ''checkout'',
        ''cart'', ''order'', ''purchase'', ''billing'', ''admin'', ''dashboard'', ''control'',
        ''manage'']"

definition requiresApprovalFor :: "Configuration \<Rightarrow> string \<Rightarrow> string \<Rightarrow> operation \<Rightarrow> bool" where
  "requiresApprovalFor cfg domain url op =
     (if policyApproval (getDomainPolicy cfg domain) = Some True then True
      else if list_ex (\<lambda>checkoutKeyword. includesStr (toLowerCase url) checkoutKeyword
                         \<or> includesStr (toLowerCase domain) checkoutKeyword) CHECKOUT_DOMAINS
      then True
      else op = Write \<and> isSensitiveDomain domain)"

text \<open>\<^verbatim>\<open>checkStepBudget\<close> returns whether the budget of the domain is exceeded.\<close>

definition checkStepBudget :: "PolicyEngine \<Rightarrow> int \<Rightarrow> string \<Rightarrow> bool \<times> PolicyEngine" where
  "checkStepBudget pe now domain =
     (let policy = getDomainPolicy (config pe) domain;
          maxSteps = (case policyMaxSteps policy of
                        None \<Rightarrow> stepBudget (config pe)
                      | Some n \<Rightarrow> if n = 0 then stepBudget (config pe) else n)
      in case stepCounts pe domain of
           None \<Rightarrow> (False, pe)
         | Some stepData \<Rightarrow>
             if now - resetTime stepData > hourMs
             then (False, pe\<lparr>stepCounts := (stepCounts pe)(domain \<mapsto> \<lparr>count = 0, resetTime = now\<rparr>)\<rparr>)
             else (maxSteps \<le> count stepData, pe))"

definition incrementStepCount :: "PolicyEngine \<Rightarrow> int \<Rightarrow> string \<Rightarrow> PolicyEngine" where
  "incrementStepCount pe now domain =
     pe\<lparr>stepCounts := (stepCounts pe)(domain \<mapsto> bumpWindow now hourMs (stepCounts pe domain))\<rparr>"

definition deny :: "string \<Rightarrow> props \<Rightarrow> PolicyDecision" where
  "deny why meta =
     \<lparr>allowed = False, reason = Some why, requiresApproval = False, metadata = Some meta\<rparr>"

text \<open>
  \<^verbatim>\<open>checkDomainPolicy\<close>. \<open>parseUrl\<close> stands for \<^verbatim>\<open>new URL(url).hostname\<close> of the
  platform: the host name, or the message of the error it throws.
\<close>

definition checkDomainPolicy ::
  "(string \<Rightarrow> string + string) \<Rightarrow> PolicyEngine \<Rightarrow> int \<Rightarrow> string \<Rightarrow> operation
     \<Rightarrow> PolicyDecision \<times> PolicyEngine" where
  "checkDomainPolicy parseUrl pe now url op =
     (case parseUrl url of
        Inl message \<Rightarrow>
          (deny (''Invalid URL: '' @ message)
             [(''url'', JStr url), (''operation'', JStr (operationName op))], pe)
      | Inr hostname \<Rightarrow>
          (let domain = toLowerCase hostname
           in case find (\<lambda>restricted. startsWith (toLowerCase url) restricted) RESTRICTED_DOMAINS of
                Some restricted \<Rightarrow>
                  (deny (''Access to '' @ restricted @ '' URLs is not permitted'')
                     [(''domain'', JStr domain), (''operation'', JStr (operationName op)),
                      (''restricted'', JBool True)], pe)
              | None \<Rightarrow>
                  (let policy = getDomainPolicy (config pe) domain
                   in if \<not> policyAllows policy op
                      then (deny (''Domain '' @ domain @ '' is not allowed for ''
                                    @ operationName op @ '' operations'')
                              [(''domain'', JStr domain), (''operation'', JStr (operationName op)),
                               (''policy'', policyJson policy)], pe)
                      else (let approvalNeeded = requiresApprovalFor (config pe) domain url op
                            in case checkStepBudget pe now domain of
                                 (stepBudgetExceeded, pe') \<Rightarrow>
                                   if stepBudgetExceeded
                                   then (deny (''Step budget exceeded for domain '' @ domain)
                                           [(''domain'', JStr domain),
                                            (''operation'', JStr (operationName op)),
                                            (''stepBudgetExceeded'', JBool True)], pe')
                                   else (\<lparr>allowed = True,
                                          reason = (if approvalNeeded
                                                    then Some ''Sensitive domain or action detected''
                                                    else None),
                                          requiresApproval = approvalNeeded,
                                          metadata = Some [(''domain'', JStr domain),
                                                           (''operation'', JStr (operationName op)),
                                                           (''policy'', policyJson policy)]\<rparr>, pe')))))"


definition checkFailureThreshold :: "PolicyEngine \<Rightarrow> string \<Rightarrow> PolicyDecision" where
  "checkFailureThreshold pe toolName =
     (let failureResult = rl_checkFailureThreshold (rateLimiter pe) toolName
      in if \<not> allowed failureResult
         then \<lparr>allowed = False, reason = reason failureResult, requiresApproval = False,
               metadata = Some ((''toolName'', JStr toolName)
                                # (case failureCount failureResult of
                                     None \<Rightarrow> []
                                   | Some n \<Rightarrow> [(''failureCount'', JNum (int n))])
                                @ [(''maxFailures'', JNum 5)])\<rparr>
         else \<lparr>allowed = True, reason = None, requiresApproval = False, metadata = None\<rparr>)"

text \<open>
  \<^verbatim>\<open>a || b\<close> on an optional string: a missing or empty \<open>a\<close> gives \<open>b\<close>.
\<close>

definition orElse :: "string option \<Rightarrow> string \<Rightarrow> string" where
  "orElse a b = (case a of None \<Rightarrow> b | Some s \<Rightarrow> if s = [] then b else s)"

definition recordToolExecution ::
  "PolicyEngine \<Rightarrow> int \<Rightarrow> string \<Rightarrow> bool \<Rightarrow> string option \<Rightarrow> string option \<Rightarrow> PolicyEngine" where
  "recordToolExecution pe now toolName success domain requestId =
     (let pe1 = pe\<lparr>globalStepCount := globalStepCount pe + 1\<rparr>;
          pe2 = (case domain of
                   None \<Rightarrow> pe1
                 | Some d \<Rightarrow> if d = [] then pe1 else incrementStepCount pe1 now d);
          pe3 = pe2\<lparr>rateLimiter := completeRequest (rateLimiter pe2) (orElse requestId toolName) success\<rparr>;
          key = toolName @ ''_failures''
      in if success
         then pe3\<lparr>toolCallCounts := (toolCallCounts pe3)(key := None)\<rparr>
         else pe3\<lparr>toolCallCounts :=
                    (toolCallCounts pe3)
                      (key \<mapsto> (case toolCallCounts pe3 key of None \<Rightarrow> 0 | Some n \<Rightarrow> n) + 1)\<rparr>)"



text \<open>
  A recorded execution is the time, the tool, the outcome, the domain and the request
  id that \<^verbatim>\<open>recordToolExecution\<close> is called with; \<open>recordAll\<close> records a sequence
  of them.
\<close>

type_synonym execution = "int \<times> string \<times> bool \<times> string option \<times> string option"

definition recordAll :: "execution list \<Rightarrow> PolicyEngine \<Rightarrow> PolicyEngine" where
  "recordAll calls pe =
     fold (\<lambda>(now, toolName, success, domain, requestId) pe.
             recordToolExecution pe now toolName success domain requestId) calls pe"


definition checkLargePostBody :: "(json \<Rightarrow> nat option) \<Rightarrow> json \<Rightarrow> PolicyDecision" where
  "checkLargePostBody stringifyLength d =
     (if isLargePostBody stringifyLength d
      then \<lparr>allowed = True,
            reason = Some ''Large POST body detected (>8KB) - requires user confirmation'',
            requiresApproval = True,
            metadata = Some ((''largePostBody'', JBool True)
                             # (case d of
                                  JStr s \<Rightarrow> [(''dataSize'', JNum (int (length s)))]
                                | _ \<Rightarrow> (case stringifyLength d of
                                          None \<Rightarrow> []
                                        | Some n \<Rightarrow> [(''dataSize'', JNum (int n))])))\<rparr>
      else \<lparr>allowed = True, reason = None, requiresApproval = False, metadata = None\<rparr>)"

section \<open>MCPToolRegistry\<close>

text \<open>
  A tool is its name, its description, its input schema and its handler. The schema is
  the function \<^verbatim>\<open>inputSchema.parse\<close>: it returns the validated arguments, or the
  issues of the \<^verbatim>\<open>ZodError\<close> it throws, each the path and the message. The handler
  returns the response the awaited promise resolves with, or the message of the error
  it rejects with. In the registry every handler is a call of \<^verbatim>\<open>bridge.sendCommand\<close>.
\<close>

record ToolResponse =
  success :: bool
  data :: "props option"
  error :: "string option"
  response_metadata :: "props option"



text \<open>
  What one call of \<^verbatim>\<open>executeTool\<close> takes from the platform: the URL parser, the
  length of \<^verbatim>\<open>JSON.stringify\<close>, \<^verbatim>\<open>Date.now()\<close> while the call is checked and
  dispatched, the characters drawn from \<^verbatim>\<open>Math.random()\<close> for the request id, and
  \<^verbatim>\<open>Date.now()\<close> once the handler has returned.
\<close>

record CallEnv =
  parseUrl :: "string \<Rightarrow> string + string"
  stringifyLength :: "json \<Rightarrow> nat option"
  clock :: int
  random :: string
  finished :: int

text \<open>
  What a call does besides returning: the decision of each policy stage it evaluates,
  the warnings and the log entry it writes to the console, and the invocation of the
  handler.
\<close>

datatype event =
    Stage string PolicyDecision
  | Warning string
  | Invoked string props
  | Logged props

definition showInt :: "int \<Rightarrow> string" where
  "showInt n = (if n < 0 then CHR ''-'' # showNat (nat (- n)) else showNat (nat n))"






definition reasonText :: "PolicyDecision \<Rightarrow> string" where
  "reasonText d = (case reason d of None \<Rightarrow> ''undefined'' | Some r \<Rightarrow> r)"


text \<open>The check for sensitive data: its decision is only logged.\<close>

definition sensitiveStage :: "string \<Rightarrow> PolicyDecision \<Rightarrow> event list" where
  "sensitiveStage toolName sensitiveDataDecision =
     Stage ''sensitiveData'' sensitiveDataDecision
     # (if requiresApproval sensitiveDataDecision
        then [Warning (''Tool '' @ toolName @ '' involves sensitive data: ''
                        @ reasonText sensitiveDataDecision)]
        else [])"

text \<open>The check for a large body, made for \<^verbatim>\<open>type_text\<close> with a text: only logged.\<close>

definition largeBodyStage :: "CallEnv \<Rightarrow> string \<Rightarrow> props \<Rightarrow> event list" where
  "largeBodyStage env toolName args =
     (if toolName = ''type_text'' \<and> truthy (getProp args ''text'')
      then (case getProp args ''text'' of
              None \<Rightarrow> []
            | Some text \<Rightarrow>
                (let largeBodyDecision = checkLargePostBody (stringifyLength env) text
                 in Stage ''largePostBody'' largeBodyDecision
                    # (if requiresApproval largeBodyDecision
                       then [Warning (''Tool '' @ toolName @ '' has large content: ''
                                       @ reasonText largeBodyDecision)]
                       else [])))
      else [])"





text \<open>
  \<^verbatim>\<open>executeTool\<close> once the budget, the rate limit and the failure threshold have
  allowed the call: the input is parsed, which is the only step inside the \<^verbatim>\<open>try\<close>
  that throws. When it throws, the \<^verbatim>\<open>catch\<close> records a failure and answers with
  the issues. Otherwise the request is tracked under a new request id, the tool is
  executed under the policy, a thrown error is turned into a response, and the outcome
  is recorded under the request id.
\<close>

definition requestIdFor :: "CallEnv \<Rightarrow> string \<Rightarrow> string" where
  "requestIdFor env toolName = toolName @ ''_'' @ showInt (clock env) @ ''_'' @ random env"











text \<open>The handler invocations among the events of a call, in order.\<close>

fun invocations :: "event list \<Rightarrow> (string \<times> props) list" where
  "invocations [] = []"
| "invocations (Invoked toolName args # es) = (toolName, args) # invocations es"
| "invocations (Stage stage d # es) = invocations es"
| "invocations (Warning w # es) = invocations es"
| "invocations (Logged entry # es) = invocations es"

section \<open>WebSocketBridge\<close>

text \<open>
  The two maps of the bridge are JavaScript \<^verbatim>\<open>Map\<close>s, which iterate in insertion
  order: they are association lists. \<^verbatim>\<open>map.set\<close> keeps the place of a key that is
  present and appends a new one.
\<close>

fun mapSet :: "'k \<Rightarrow> 'v \<Rightarrow> ('k \<times> 'v) list \<Rightarrow> ('k \<times> 'v) list" where
  "mapSet k v [] = [(k, v)]"
| "mapSet k v (e # es) = (if fst e = k then (k, v) # es else e # mapSet k v es)"

definition mapDelete :: "'k \<Rightarrow> ('k \<times> 'v) list \<Rightarrow> ('k \<times> 'v) list" where
  "mapDelete k es = filter (\<lambda>e. fst e \<noteq> k) es"

text \<open>
  The messages of the wire. Of a connected client the model keeps whether its socket is
  in the state \<^verbatim>\<open>OPEN\<close> and what has been sent on it.
\<close>

record BridgeMessage =
  msg_id :: string
  msg_cmd :: string
  msg_payload :: props
  msg_timestamp :: int

record BridgeResponse =
  replyTo :: string
  payload :: json
  response_error :: "string option"

record ConnectedClient =
  cc_id :: string
  cc_open :: bool
  cc_sent :: "BridgeMessage list"
  connectedAt :: int
  lastActivity :: int

text \<open>
  Every call of \<^verbatim>\<open>sendCommand\<close> creates a promise; the model numbers them. The
  \<^verbatim>\<open>resolve\<close> and \<^verbatim>\<open>reject\<close> functions stored in a pending request are the number
  of their promise, and \<open>settled\<close> records how each promise was settled. Settling a
  promise again has no effect.
\<close>

datatype outcome = Resolved json | Rejected string

record PendingRequest =
  pr_id :: string
  pr_promise :: nat
  pr_timestamp :: int
  pr_timeoutId :: nat

text \<open>
  \<open>timeouts\<close> holds the timers scheduled with \<^verbatim>\<open>setTimeout\<close> that have neither
  fired nor been cleared: the id of the timer, and the message id and the promise that
  its callback refers to.
\<close>

record WebSocketBridge =
  clients :: "(string \<times> ConnectedClient) list"
  pendingRequests :: "(string \<times> PendingRequest) list"
  settled :: "nat \<rightharpoonup> outcome"
  timeouts :: "nat \<rightharpoonup> string \<times> nat"
  nextPromise :: nat
  nextTimer :: nat

definition requestTimeoutMs :: int where
  "requestTimeoutMs = 30000"

definition newBridge :: WebSocketBridge where
  "newBridge =
     \<lparr>clients = [], pendingRequests = [], settled = Map.empty, timeouts = Map.empty,
      nextPromise = 0, nextTimer = 0\<rparr>"

definition settle :: "nat \<Rightarrow> outcome \<Rightarrow> WebSocketBridge \<Rightarrow> WebSocketBridge" where
  "settle p out b =
     (case settled b p of None \<Rightarrow> b\<lparr>settled := (settled b)(p \<mapsto> out)\<rparr> | Some _ \<Rightarrow> b)"

definition clearTimeout :: "nat \<Rightarrow> WebSocketBridge \<Rightarrow> WebSocketBridge" where
  "clearTimeout tid b = b\<lparr>timeouts := (timeouts b)(tid := None)\<rparr>"

definition deletePending :: "string \<Rightarrow> WebSocketBridge \<Rightarrow> WebSocketBridge" where
  "deletePending k b = b\<lparr>pendingRequests := mapDelete k (pendingRequests b)\<rparr>"

text \<open>The handler of \<^verbatim>\<open>connection\<close>; the client id is the \<^verbatim>\<open>randomUUID()\<close> drawn.\<close>

definition onConnection :: "WebSocketBridge \<Rightarrow> int \<Rightarrow> string \<Rightarrow> WebSocketBridge" where
  "onConnection b now clientId =
     b\<lparr>clients := mapSet clientId
                     \<lparr>cc_id = clientId, cc_open = True, cc_sent = [], connectedAt = now,
                      lastActivity = now\<rparr> (clients b)\<rparr>"

text \<open>A socket leaves the state \<^verbatim>\<open>OPEN\<close> before its \<^verbatim>\<open>close\<close> event is delivered.\<close>

definition socketClosing :: "WebSocketBridge \<Rightarrow> string \<Rightarrow> WebSocketBridge" where
  "socketClosing b clientId =
     (case map_of (clients b) clientId of
        None \<Rightarrow> b
      | Some client \<Rightarrow> b\<lparr>clients := mapSet clientId (client\<lparr>cc_open := False\<rparr>) (clients b)\<rparr>)"

definition handleResponse ::
  "WebSocketBridge \<Rightarrow> int \<Rightarrow> string \<Rightarrow> BridgeResponse \<Rightarrow> WebSocketBridge" where
  "handleResponse b now clientId response =
     (case map_of (clients b) clientId of
        None \<Rightarrow> b
      | Some client \<Rightarrow>
          (let b1 = b\<lparr>clients := mapSet clientId (client\<lparr>lastActivity := now\<rparr>) (clients b)\<rparr>
           in case map_of (pendingRequests b1) (replyTo response) of
                None \<Rightarrow> b1
              | Some pendingRequest \<Rightarrow>
                  (let b2 = deletePending (replyTo response)
                              (clearTimeout (pr_timeoutId pendingRequest) b1)
                   in case response_error response of
                        None \<Rightarrow> settle (pr_promise pendingRequest) (Resolved (payload response)) b2
                      | Some e \<Rightarrow>
                          if e = [] then settle (pr_promise pendingRequest) (Resolved (payload response)) b2
                          else settle (pr_promise pendingRequest) (Rejected e) b2)))"

text \<open>
  The handler of \<^verbatim>\<open>message\<close>: data that \<^verbatim>\<open>JSON.parse\<close> rejects is logged and dropped.
\<close>

definition onMessage ::
  "WebSocketBridge \<Rightarrow> int \<Rightarrow> string \<Rightarrow> BridgeResponse option \<Rightarrow> WebSocketBridge" where
  "onMessage b now clientId parsed =
     (case parsed of None \<Rightarrow> b | Some message \<Rightarrow> handleResponse b now clientId message)"

text \<open>
  The loops over \<^verbatim>\<open>this.pendingRequests.entries()\<close> delete entries while they iterate.
  The iterator of a \<^verbatim>\<open>Map\<close> is live: it visits the entries present when the loop
  starts, in order, except those deleted before it reaches them. \<open>forEachPending\<close>
  runs a loop body over the entries in this way.
\<close>

definition forEachPending ::
  "(PendingRequest \<Rightarrow> WebSocketBridge \<Rightarrow> WebSocketBridge) \<Rightarrow> WebSocketBridge \<Rightarrow> WebSocketBridge" where
  "forEachPending body b =
     fold (\<lambda>entry b'. if map_of (pendingRequests b') (fst entry) = None then b'
                       else body (snd entry) b')
       (pendingRequests b) b"

definition rejectRequest :: "string \<Rightarrow> PendingRequest \<Rightarrow> WebSocketBridge \<Rightarrow> WebSocketBridge" where
  "rejectRequest message request b =
     settle (pr_promise request) (Rejected message) (clearTimeout (pr_timeoutId request) b)"

definition rejectPendingRequestsForClient :: "WebSocketBridge \<Rightarrow> WebSocketBridge" where
  "rejectPendingRequestsForClient b =
     forEachPending
       (\<lambda>request b'. deletePending (pr_id request) (rejectRequest ''Client disconnected'' request b'))
       b"

text \<open>The handlers of \<^verbatim>\<open>close\<close> and of \<^verbatim>\<open>error\<close> of a client socket.\<close>

definition onClose :: "WebSocketBridge \<Rightarrow> string \<Rightarrow> WebSocketBridge" where
  "onClose b clientId =
     rejectPendingRequestsForClient (b\<lparr>clients := mapDelete clientId (clients b)\<rparr>)"

definition onError :: "WebSocketBridge \<Rightarrow> string \<Rightarrow> WebSocketBridge" where
  "onError b clientId =
     rejectPendingRequestsForClient (b\<lparr>clients := mapDelete clientId (clients b)\<rparr>)"

text \<open>
  \<^verbatim>\<open>sendCommand\<close> up to the promise it creates. \<open>messageId\<close> is the
  \<^verbatim>\<open>randomUUID()\<close> drawn and \<open>sendError\<close> the message of the exception that
  \<^verbatim>\<open>ws.send\<close> throws, if it throws. The result is \<open>Inl\<close> of the message when the
  method throws before creating a promise, else the number of the promise.
\<close>

definition sendCommand ::
  "WebSocketBridge \<Rightarrow> int \<Rightarrow> string \<Rightarrow> string option \<Rightarrow> string \<Rightarrow> props
     \<Rightarrow> (string + nat) \<times> WebSocketBridge" where
  "sendCommand b now messageId sendError cmd args =
     (case clients b of
        [] \<Rightarrow> (Inl ''No extension clients connected'', b)
      | first # _ \<Rightarrow>
          (let client = snd first;
               message = \<lparr>msg_id = messageId, msg_cmd = cmd, msg_payload = args, msg_timestamp = now\<rparr>;
               p = nextPromise b;
               tid = nextTimer b;
               b1 = b\<lparr>nextPromise := Suc p, nextTimer := Suc tid,
                      timeouts := (timeouts b)(tid \<mapsto> (messageId, p)),
                      pendingRequests :=
                        mapSet messageId
                          \<lparr>pr_id = messageId, pr_promise = p, pr_timestamp = now, pr_timeoutId = tid\<rparr>
                          (pendingRequests b)\<rparr>
           in if cc_open client
              then (case sendError of
                      None \<Rightarrow>
                        (Inr p, b1\<lparr>clients := mapSet (fst first)
                                                (client\<lparr>cc_sent := cc_sent client @ [message]\<rparr>)
                                                (clients b1)\<rparr>)
                    | Some e \<Rightarrow>
                        (Inr p, settle p (Rejected e) (deletePending messageId (clearTimeout tid b1))))
              else (Inr p, settle p (Rejected ''WebSocket connection not open'')
                             (deletePending messageId (clearTimeout tid b1)))))"

text \<open>
  The \<^verbatim>\<open>.then\<close> and \<^verbatim>\<open>.catch\<close> of \<^verbatim>\<open>sendCommand\<close>: what its caller receives once
  the promise is settled, at time \<open>now\<close>.
\<close>

definition commandResult :: "string \<Rightarrow> int \<Rightarrow> outcome \<Rightarrow> json" where
  "commandResult cmd now out =
     (case out of
        Resolved response \<Rightarrow>
          (case response of
             JObj ps \<Rightarrow>
               if ''success'' \<in> fst ` set ps then response
               else JObj [(''success'', JBool True), (''data'', response),
                          (''metadata'', JObj [(''timestamp'', JNum now)])]
           | _ \<Rightarrow> JObj [(''success'', JBool True), (''data'', response),
                        (''metadata'', JObj [(''timestamp'', JNum now)])])
      | Rejected message \<Rightarrow>
          JObj [(''success'', JBool False), (''error'', JStr message),
                (''metadata'', JObj [(''tool'', JStr cmd), (''timestamp'', JNum now)])])"

text \<open>The callback of the timer of a request, when the timer fires.\<close>

definition timeoutFired :: "WebSocketBridge \<Rightarrow> nat \<Rightarrow> WebSocketBridge" where
  "timeoutFired b tid =
     (case timeouts b tid of
        None \<Rightarrow> b
      | Some t \<Rightarrow>
          settle (snd t) (Rejected ''Request timeout after 30000ms'')
            (deletePending (fst t) (clearTimeout tid b)))"

definition closeBridge :: "WebSocketBridge \<Rightarrow> WebSocketBridge" where
  "closeBridge b =
     (let b1 = forEachPending (rejectRequest ''Server shutting down'') b
      in b1\<lparr>pendingRequests := [], clients := []\<rparr>)"

definition cleanupStaleRequests :: "WebSocketBridge \<Rightarrow> int \<Rightarrow> WebSocketBridge" where
  "cleanupStaleRequests b now =
     forEachPending
       (\<lambda>request b'. if now - pr_timestamp request > requestTimeoutMs
                      then deletePending (pr_id request) (rejectRequest ''Request expired'' request b')
                      else b')
       b"

text \<open>The states the bridge can be in: those its handlers and methods lead to.\<close>

inductive reachable :: "WebSocketBridge \<Rightarrow> bool" where
  initial: "reachable newBridge"
| connection: "reachable b \<Longrightarrow> reachable (onConnection b now clientId)"
| closing: "reachable b \<Longrightarrow> reachable (socketClosing b clientId)"
| message: "reachable b \<Longrightarrow> reachable (onMessage b now clientId parsed)"
| closed: "reachable b \<Longrightarrow> reachable (onClose b clientId)"
| failed: "reachable b \<Longrightarrow> reachable (onError b clientId)"
| sent: "reachable b \<Longrightarrow> reachable (snd (sendCommand b now messageId sendError cmd args))"
| timeout: "reachable b \<Longrightarrow> reachable (timeoutFired b tid)"
| cleanup: "reachable b \<Longrightarrow> reachable (cleanupStaleRequests b now)"
| shutdown: "reachable b \<Longrightarrow> reachable (closeBridge b)"

text \<open>
  What holds in every state of the bridge that can be reached: the keys of the
  pending requests are distinct and are the ids of the requests; their promises are
  distinct, not settled and were created by the bridge; a scheduled timer refers to a
  promise the bridge created, and a pending request with that promise is stored under
  the timer's message id; only promises that were created are settled.
\<close>

definition bridgeInv :: "WebSocketBridge \<Rightarrow> bool" where
  "bridgeInv b =
     (distinct (map fst (pendingRequests b))
      \<and> distinct (map (\<lambda>e. pr_promise (snd e)) (pendingRequests b))
      \<and> (\<forall>(k, r)\<in>set (pendingRequests b).
            pr_id r = k \<and> settled b (pr_promise r) = None \<and> pr_promise r < nextPromise b)
      \<and> (\<forall>tid mid p. timeouts b tid = Some (mid, p) \<longrightarrow>
            p < nextPromise b
            \<and> (\<forall>(k, r)\<in>set (pendingRequests b). pr_promise r = p \<longrightarrow> k = mid))
      \<and> (\<forall>q out. settled b q = Some out \<longrightarrow> q < nextPromise b))"

chapter \<open>Properties\<close>

section \<open>Consecutive failures\<close>

lemma completeRequest_max [simp]:
  "maxConsecutiveFailures (completeRequest rl i s) = maxConsecutiveFailures rl"
  by (simp add: completeRequest_def Let_def split: option.splits)

lemma completeRequest_failures_same:
  "consecutiveFailures (completeRequest rl i s) i =
     (if s then None else Some ((case consecutiveFailures rl i of None \<Rightarrow> 0 | Some c \<Rightarrow> c) + 1))"
  by (simp add: completeRequest_def Let_def split: option.splits)

lemma completeRequest_failures_other:
  "j \<noteq> i \<Longrightarrow> consecutiveFailures (completeRequest rl i s) j = consecutiveFailures rl j"
  by (simp add: completeRequest_def Let_def split: option.splits)

lemma failures_funpow_max [simp]:
  "maxConsecutiveFailures (((\<lambda>r. completeRequest r i False) ^^ n) rl) = maxConsecutiveFailures rl"
  by (induction n) simp_all

lemma failures_funpow:
  "consecutiveFailures (((\<lambda>r. completeRequest r i False) ^^ n) rl) i =
     (if n = 0 then consecutiveFailures rl i
      else Some ((case consecutiveFailures rl i of None \<Rightarrow> 0 | Some c \<Rightarrow> c) + n))"
  by (induction n) (simp_all add: completeRequest_failures_same)

lemma showNat_0: "showNat 0 = ''0''"
  by code_simp

text \<open>
  C6, as stated, at the threshold \<open>K = 0\<close>: a limiter constructed with
  \<^verbatim>\<open>maxConsecutiveFailures = 0\<close> denies right after a success, with a failure count
  of 0, because the check is \<^verbatim>\<open>failureCount >= this.maxConsecutiveFailures\<close>.
\<close>

theorem failure_threshold_zero_counterexample:
  "rl_checkFailureThreshold (completeRequest (newRateLimiter 60 1000 30000 0) ''click'' True) ''click''
     = \<lparr>allowed = False, reason = Some ''Too many consecutive failures: 0/0'', failureCount = Some 0\<rparr>"
  by (simp add: rl_checkFailureThreshold_def completeRequest_def newRateLimiter_def showNat_0)

text \<open>
  C6, amended: for every identifier and every configured threshold \<open>K \<ge> 1\<close>, after
  \<open>K\<close> calls of \<^verbatim>\<open>completeRequest(identifier, false)\<close> in a row (from any state of the
  limiter) \<^verbatim>\<open>checkFailureThreshold(identifier)\<close> returns \<open>allowed = false\<close>; and one
  \<^verbatim>\<open>completeRequest(identifier, true)\<close> removes the counter, so that the next
  \<^verbatim>\<open>checkFailureThreshold(identifier)\<close> returns \<open>allowed = true\<close> with the failure
  count 0.
\<close>

theorem failure_threshold_reached_and_reset:
  assumes "0 < maxConsecutiveFailures rl"
  shows "allowed (rl_checkFailureThreshold
                   (((\<lambda>r. completeRequest r identifier False) ^^ maxConsecutiveFailures rl) rl)
                   identifier) = False
       \<and> consecutiveFailures
            (completeRequest
               (((\<lambda>r. completeRequest r identifier False) ^^ maxConsecutiveFailures rl) rl)
               identifier True) identifier = None
       \<and> rl_checkFailureThreshold
            (completeRequest
               (((\<lambda>r. completeRequest r identifier False) ^^ maxConsecutiveFailures rl) rl)
               identifier True) identifier
           = \<lparr>allowed = True, reason = None, failureCount = Some 0\<rparr>"
  using assms
  by (simp add: rl_checkFailureThreshold_def Let_def failures_funpow completeRequest_failures_same)

theorem failure_threshold_reached_and_reset_witness:
  "0 < maxConsecutiveFailures (newRateLimiter 60 1000 30000 5)
   \<and> allowed (rl_checkFailureThreshold
                (((\<lambda>r. completeRequest r ''click'' False) ^^ 5) (newRateLimiter 60 1000 30000 5))
                ''click'') = False
   \<and> rl_checkFailureThreshold
        (completeRequest
           (((\<lambda>r. completeRequest r ''click'' False) ^^ 5) (newRateLimiter 60 1000 30000 5))
           ''click'' True) ''click''
       = \<lparr>allowed = True, reason = None, failureCount = Some 0\<rparr>"
  using failure_threshold_reached_and_reset [of "newRateLimiter 60 1000 30000 5" "''click''"]
  by (simp add: newRateLimiter_def)

section \<open>Rate windows\<close>

lemma recordRequest_minute:
  "requestCounts (recordRequest rl now i) (i @ '':minute'')
     = Some (bumpWindow now minuteMs (requestCounts rl (i @ '':minute'')))"
  by (simp add: recordRequest_def Let_def)

lemma recordRequest_limits [simp]:
  "maxRequestsPerMinute (recordRequest rl now i) = maxRequestsPerMinute rl"
  "maxRequestsPerHour (recordRequest rl now i) = maxRequestsPerHour rl"
  by (simp_all add: recordRequest_def Let_def)

lemma fold_recordRequest_limits [simp]:
  "maxRequestsPerMinute (fold (\<lambda>t r. recordRequest r t i) ts rl) = maxRequestsPerMinute rl"
  "maxRequestsPerHour (fold (\<lambda>t r. recordRequest r t i) ts rl) = maxRequestsPerHour rl"
  by (induction ts arbitrary: rl) simp_all

lemma fold_recordRequest_minute:
  assumes "\<forall>t\<in>set ts. t - w \<le> minuteMs"
      and "requestCounts rl (i @ '':minute'') = Some \<lparr>count = c, resetTime = w\<rparr>"
  shows "requestCounts (fold (\<lambda>t r. recordRequest r t i) ts rl) (i @ '':minute'')
           = Some \<lparr>count = c + length ts, resetTime = w\<rparr>"
  using assms
proof (induction ts arbitrary: rl c)
  case Nil
  then show ?case by simp
next
  case (Cons t ts)
  have t: "t - w \<le> minuteMs"
    using Cons.prems(1) by simp
  have m: "requestCounts (recordRequest rl t i) (i @ '':minute'') = Some \<lparr>count = Suc c, resetTime = w\<rparr>"
    using t Cons.prems(2) by (simp add: recordRequest_minute bumpWindow_def)
  from Cons.IH [OF _ m] Cons.prems(1) show ?case by simp
qed

lemma bumpWindow_idle:
  "\<forall>d. w = Some d \<longrightarrow> windowMs < now - resetTime d \<Longrightarrow>
     bumpWindow now windowMs w = \<lparr>count = 1, resetTime = now\<rparr>"
  by (cases w) (auto simp: bumpWindow_def)

lemma ceilSeconds_pos: "0 < ms \<Longrightarrow> 0 < ceilSeconds ms"
  by (simp add: ceilSeconds_def pos_imp_zdiv_neg_iff)

text \<open>
  C7, as stated, fails in two ways. With \<open>N = 0\<close> no request has been recorded and
  the check allows. With \<open>N = 2\<close> requests per minute and 2 per hour, after two
  recorded requests the check past the minute window is still denied, by the hour
  window.
\<close>

theorem rate_limit_window_counterexample:
  "allowed (rl_checkRateLimit (newRateLimiter 0 1000 30000 5) 0 ''global'') = True
   \<and> allowed (rl_checkRateLimit
                (recordRequest (recordRequest (newRateLimiter 2 2 30000 5) 0 ''global'') 0 ''global'')
                60001 ''global'') = False"
  by (simp add: rl_checkRateLimit_def windowDenial_def recordRequest_def bumpWindow_def
        newRateLimiter_def Let_def minuteMs_def hourMs_def)

text \<open>
  C7, amended: for a limiter with \<^verbatim>\<open>maxRequestsPerMinute = N\<close>, \<open>N \<ge> 1\<close>, in any
  state: after \<open>N\<close> calls of \<^verbatim>\<open>recordRequest(id)\<close> within one minute window, the
  first at \<open>t1\<close> opening the window and the others no later than one minute after it,
  a \<^verbatim>\<open>checkRateLimit(id)\<close> at a time less than one minute after \<open>t1\<close> returns
  \<open>allowed = false\<close> with \<open>retryAfter\<close> the remaining time rounded up to whole
  seconds, which is positive; and a check one minute after \<open>t1\<close> or later returns
  \<open>allowed = true\<close> again, unless the hour window of the identifier is still running
  and has counted \<^verbatim>\<open>maxRequestsPerHour\<close> requests or more.
\<close>

theorem rate_limit_window:
  assumes "\<forall>d. requestCounts rl (i @ '':minute'') = Some d \<longrightarrow> minuteMs < t1 - resetTime d"
      and "maxRequestsPerMinute rl = length (t1 # rest)"
      and "\<forall>t\<in>set rest. t - t1 \<le> minuteMs"
  shows "(now - t1 < minuteMs \<longrightarrow>
            allowed (rl_checkRateLimit (fold (\<lambda>t r. recordRequest r t i) (t1 # rest) rl) now i) = False
          \<and> retryAfter (rl_checkRateLimit (fold (\<lambda>t r. recordRequest r t i) (t1 # rest) rl) now i)
               = Some (ceilSeconds (minuteMs - (now - t1)))
          \<and> 0 < ceilSeconds (minuteMs - (now - t1)))
       \<and> (minuteMs \<le> now - t1 \<longrightarrow>
            allowed (rl_checkRateLimit (fold (\<lambda>t r. recordRequest r t i) (t1 # rest) rl) now i)
              = (\<forall>h. requestCounts (fold (\<lambda>t r. recordRequest r t i) (t1 # rest) rl) (i @ '':hour'')
                         = Some h
                       \<longrightarrow> hourMs \<le> now - resetTime h \<or> count h < maxRequestsPerHour rl))"
proof -
  let ?rl1 = "recordRequest rl t1 i"
  let ?rl' = "fold (\<lambda>t r. recordRequest r t i) (t1 # rest) rl"
  have m1: "requestCounts ?rl1 (i @ '':minute'') = Some \<lparr>count = 1, resetTime = t1\<rparr>"
    using assms(1) by (simp add: recordRequest_minute bumpWindow_idle)
  from fold_recordRequest_minute [OF assms(3) m1]
  have m: "requestCounts ?rl' (i @ '':minute'') = Some \<lparr>count = length (t1 # rest), resetTime = t1\<rparr>"
    by simp
  have lim: "maxRequestsPerMinute ?rl' = length (t1 # rest)" "maxRequestsPerHour ?rl' = maxRequestsPerHour rl"
    using assms(2) by (simp_all del: fold_simps)
  have denied: "now - t1 < minuteMs \<Longrightarrow>
      allowed (rl_checkRateLimit ?rl' now i) = False
      \<and> retryAfter (rl_checkRateLimit ?rl' now i) = Some (ceilSeconds (minuteMs - (now - t1)))
      \<and> 0 < ceilSeconds (minuteMs - (now - t1))"
    unfolding rl_checkRateLimit_def windowDenial_def m lim
    by (simp add: ceilSeconds_pos)
  have again: "minuteMs \<le> now - t1 \<Longrightarrow>
      allowed (rl_checkRateLimit ?rl' now i)
        = (\<forall>h. requestCounts ?rl' (i @ '':hour'') = Some h
                 \<longrightarrow> hourMs \<le> now - resetTime h \<or> count h < maxRequestsPerHour rl)"
    unfolding rl_checkRateLimit_def windowDenial_def m lim
    by (cases "requestCounts ?rl' (i @ '':hour'')") (auto simp del: fold_simps)
  from denied again show ?thesis
    by blast
qed

text \<open>
  An instance in which the hour window is running: one request at time 0, then, with
  the minute window of that request expired, two requests at 100000 and 100010.
\<close>

theorem rate_limit_window_witness:
  "allowed (rl_checkRateLimit
             (fold (\<lambda>t r. recordRequest r t ''global'') [100000, 100010]
                (recordRequest (newRateLimiter 2 1000 30000 5) 0 ''global''))
             159000 ''global'') = False
   \<and> retryAfter (rl_checkRateLimit
             (fold (\<lambda>t r. recordRequest r t ''global'') [100000, 100010]
                (recordRequest (newRateLimiter 2 1000 30000 5) 0 ''global''))
             159000 ''global'') = Some 1
   \<and> allowed (rl_checkRateLimit
             (fold (\<lambda>t r. recordRequest r t ''global'') [100000, 100010]
                (recordRequest (newRateLimiter 2 1000 30000 5) 0 ''global''))
             160000 ''global'') = True"
proof -
  let ?rl = "recordRequest (newRateLimiter 2 1000 30000 5) 0 ''global''"
  let ?rl' = "fold (\<lambda>t r. recordRequest r t ''global'') [100000, 100010] ?rl"
  have h1: "\<forall>d. requestCounts ?rl (''global'' @ '':minute'') = Some d \<longrightarrow> minuteMs < 100000 - resetTime d"
    by (simp add: recordRequest_def bumpWindow_def newRateLimiter_def Let_def minuteMs_def)
  have h2: "maxRequestsPerMinute ?rl = length [100000, 100010 :: int]"
    by (simp add: newRateLimiter_def)
  have h3: "\<forall>t\<in>set [100010 :: int]. t - 100000 \<le> minuteMs"
    by (simp add: minuteMs_def)
  have hour: "requestCounts ?rl' (''global'' @ '':hour'') = Some \<lparr>count = 3, resetTime = 0\<rparr>"
    by (simp add: recordRequest_def bumpWindow_def newRateLimiter_def Let_def hourMs_def)
  have lim: "maxRequestsPerHour ?rl = 1000"
    by (simp add: newRateLimiter_def)
  from rate_limit_window [OF h1 h2 h3, of 159000] rate_limit_window [OF h1 h2 h3, of 160000]
  show ?thesis
    unfolding hour lim
    by (simp add: minuteMs_def ceilSeconds_def)
qed

section \<open>The key of the failure counter\<close>

lemma recordToolExecution_failures:
  "orElse requestId toolName \<noteq> T \<Longrightarrow>
     consecutiveFailures (rateLimiter (recordToolExecution pe now toolName succeeded domain requestId)) T
       = consecutiveFailures (rateLimiter pe) T"
  by (simp add: recordToolExecution_def Let_def incrementStepCount_def
        completeRequest_failures_other split: option.splits)

lemma recordToolExecution_max [simp]:
  "maxConsecutiveFailures (rateLimiter (recordToolExecution pe now toolName succeeded domain requestId))
     = maxConsecutiveFailures (rateLimiter pe)"
  by (simp add: recordToolExecution_def Let_def incrementStepCount_def split: option.splits)

lemma checkFailureThreshold_cong:
  "consecutiveFailures (rateLimiter pe') T = consecutiveFailures (rateLimiter pe) T \<Longrightarrow>
   maxConsecutiveFailures (rateLimiter pe') = maxConsecutiveFailures (rateLimiter pe) \<Longrightarrow>
   checkFailureThreshold pe' T = checkFailureThreshold pe T"
  by (simp add: checkFailureThreshold_def rl_checkFailureThreshold_def Let_def)

lemma recordAll_failures:
  assumes "\<forall>(now, toolName, succeeded, domain, requestId) \<in> set calls.
             (toolName = T \<longrightarrow> (\<exists>r. requestId = Some r \<and> r \<noteq> [])) \<and> requestId \<noteq> Some T"
  shows "consecutiveFailures (rateLimiter (recordAll calls pe)) T = consecutiveFailures (rateLimiter pe) T
       \<and> maxConsecutiveFailures (rateLimiter (recordAll calls pe)) = maxConsecutiveFailures (rateLimiter pe)"
  using assms
proof (induction calls arbitrary: pe)
  case Nil
  then show ?case by (simp add: recordAll_def)
next
  case (Cons c calls)
  obtain now toolName succeeded domain requestId where c: "c = (now, toolName, succeeded, domain, requestId)"
    by (cases c) auto
  from Cons.prems c
  have tracked: "toolName = T \<longrightarrow> (\<exists>r. requestId = Some r \<and> r \<noteq> [])"
    and other: "requestId \<noteq> Some T"
    by auto
  have "orElse requestId toolName \<noteq> T"
  proof (cases requestId)
    case None
    with tracked show ?thesis by (auto simp: orElse_def)
  next
    case (Some r)
    with tracked other show ?thesis by (auto simp: orElse_def)
  qed
  then have step: "consecutiveFailures (rateLimiter (recordToolExecution pe now toolName succeeded domain requestId)) T
                     = consecutiveFailures (rateLimiter pe) T"
    by (rule recordToolExecution_failures)
  have rest: "\<forall>(now, toolName, succeeded, domain, requestId) \<in> set calls.
                (toolName = T \<longrightarrow> (\<exists>r. requestId = Some r \<and> r \<noteq> [])) \<and> requestId \<noteq> Some T"
    using Cons.prems by simp
  have unfold: "recordAll (c # calls) pe
                  = recordAll calls (recordToolExecution pe now toolName succeeded domain requestId)"
    by (simp add: recordAll_def c)
  from Cons.IH [OF rest, of "recordToolExecution pe now toolName succeeded domain requestId"] step
  show ?case
    unfolding unfold by simp
qed

lemma untracked_funpow:
  "consecutiveFailures (rateLimiter (((\<lambda>pe. recordToolExecution pe now T False domain None) ^^ n) pe)) T
     = (if n = 0 then consecutiveFailures (rateLimiter pe) T
        else Some ((case consecutiveFailures (rateLimiter pe) T of None \<Rightarrow> 0 | Some c \<Rightarrow> c) + n))
   \<and> maxConsecutiveFailures (rateLimiter (((\<lambda>pe. recordToolExecution pe now T False domain None) ^^ n) pe))
     = maxConsecutiveFailures (rateLimiter pe)"
proof (induction n)
  case 0
  then show ?case by simp
next
  case (Suc n)
  have "consecutiveFailures (rateLimiter (recordToolExecution pe' now T False domain None)) T
          = Some ((case consecutiveFailures (rateLimiter pe') T of None \<Rightarrow> 0 | Some c \<Rightarrow> c) + 1)" for pe'
    by (simp add: recordToolExecution_def Let_def incrementStepCount_def orElse_def
          completeRequest_failures_same split: option.splits)
  with Suc show ?case by simp
qed

text \<open>
  The request ids that \<^verbatim>\<open>executeTool\<close> generates for a tool are not empty and differ
  from the name of the tool.
\<close>

lemma generated_request_ids:
  "requestIdFor env toolName \<noteq> []" "requestIdFor env toolName \<noteq> toolName"
  "toolName @ ''_'' @ showInt (clock env) @ ''_error'' \<noteq> []"
  "toolName @ ''_'' @ showInt (clock env) @ ''_error'' \<noteq> toolName"
  by (simp_all add: requestIdFor_def)

text \<open>
  C10, as stated, fails: a request id that differs from the name of the tool does not
  always key the counter. On a new engine, five failures of \<^verbatim>\<open>click\<close> recorded with
  the empty string as request id, which \<^verbatim>\<open>requestId || toolName\<close> replaces by the
  name of the tool, make \<^verbatim>\<open>checkFailureThreshold("click")\<close> deny; and so do five
  failures of \<^verbatim>\<open>navigate\<close> recorded with the request id \<^verbatim>\<open>"click"\<close>.
\<close>

theorem request_id_keyed_failures_counterexample:
  "allowed (checkFailureThreshold
     (recordAll [(0, ''click'', False, None, Some []),
                 (200, ''click'', False, None, Some []),
                 (400, ''click'', False, None, Some []),
                 (600, ''click'', False, None, Some []),
                 (800, ''click'', False, None, Some [])]
        (newPolicyEngine
           \<lparr>allowlist = [], configPatterns = [], stepBudget = 100, toolTimeoutMs = 30000\<rparr> 0))
     ''click'') = False
   \<and> allowed (checkFailureThreshold
     (recordAll [(0, ''navigate'', False, None, Some ''click''),
                 (200, ''navigate'', False, None, Some ''click''),
                 (400, ''navigate'', False, None, Some ''click''),
                 (600, ''navigate'', False, None, Some ''click''),
                 (800, ''navigate'', False, None, Some ''click'')]
        (newPolicyEngine
           \<lparr>allowlist = [], configPatterns = [], stepBudget = 100, toolTimeoutMs = 30000\<rparr> 0))
     ''click'') = False"
  by (simp add: recordAll_def recordToolExecution_def completeRequest_def orElse_def
        checkFailureThreshold_def rl_checkFailureThreshold_def newPolicyEngine_def
        newRateLimiter_def Let_def)

text \<open>
  C10, amended: when every recorded execution of the tool \<open>T\<close> carries a request id
  that is not empty, and no recorded execution, of \<open>T\<close> or of another tool, carries
  the name \<open>T\<close> itself as its request id, the failure counter of \<open>T\<close> never
  changes, so \<^verbatim>\<open>checkFailureThreshold(T)\<close> answers as before, and on a new engine it
  allows whatever was recorded. Recorded without a request id, \<open>n\<close> failures of \<open>T\<close>
  on a new engine are allowed exactly while \<open>n < 5\<close>.
\<close>

theorem request_id_keyed_failures:
  assumes "\<forall>(now, toolName, succeeded, domain, requestId) \<in> set calls.
             (toolName = T \<longrightarrow> (\<exists>r. requestId = Some r \<and> r \<noteq> [])) \<and> requestId \<noteq> Some T"
  shows "checkFailureThreshold (recordAll calls pe) T = checkFailureThreshold pe T
       \<and> allowed (checkFailureThreshold (recordAll calls (newPolicyEngine cfg t0)) T) = True
       \<and> allowed (checkFailureThreshold
                    (((\<lambda>pe. recordToolExecution pe now T False domain None) ^^ n)
                       (newPolicyEngine cfg t0)) T) = (n < 5)"
proof -
  have a: "checkFailureThreshold (recordAll calls pe) T = checkFailureThreshold pe T" for pe
    using recordAll_failures [OF assms] by (intro checkFailureThreshold_cong) simp_all
  have b: "allowed (checkFailureThreshold (newPolicyEngine cfg t0) T) = True"
    by (simp add: checkFailureThreshold_def rl_checkFailureThreshold_def Let_def newPolicyEngine_def
          newRateLimiter_def)
  have c: "allowed (checkFailureThreshold
                    (((\<lambda>pe. recordToolExecution pe now T False domain None) ^^ n)
                       (newPolicyEngine cfg t0)) T) = (n < 5)"
    using untracked_funpow [where pe = "newPolicyEngine cfg t0" and n = n and T = T and now = now and domain = domain]
    by (auto simp: checkFailureThreshold_def rl_checkFailureThreshold_def Let_def
          newPolicyEngine_def newRateLimiter_def)
  from a b c show ?thesis by simp
qed

text \<open>
  An instance: six failures of \<^verbatim>\<open>click\<close> under request ids as \<^verbatim>\<open>executeTool\<close>
  generates them, among two failures of \<^verbatim>\<open>navigate\<close>, one of them recorded without
  a request id.
\<close>

theorem request_id_keyed_failures_witness:
  "allowed (checkFailureThreshold
     (recordAll [(0, ''click'', False, None, Some ''click_0_k3j9x0q1z''),
                 (200, ''click'', False, None, Some ''click_200_a8s7d6f5g''),
                 (300, ''navigate'', False, None, None),
                 (400, ''click'', False, None, Some ''click_400_q1w2e3r4t''),
                 (500, ''navigate'', False, None, Some ''navigate_500_p0o9i8u7y''),
                 (600, ''click'', False, None, Some ''click_600_z9x8c7v6b''),
                 (800, ''click'', False, None, Some ''click_800_m1n2b3v4c''),
                 (1000, ''click'', False, None, Some ''click_1000_error'')]
        (newPolicyEngine
           \<lparr>allowlist = [], configPatterns = [], stepBudget = 100, toolTimeoutMs = 30000\<rparr> 0))
     ''click'') = True"
proof -
  let ?calls = "[(0, ''click'', False, None, Some ''click_0_k3j9x0q1z''),
                 (200, ''click'', False, None, Some ''click_200_a8s7d6f5g''),
                 (300, ''navigate'', False, None, None),
                 (400, ''click'', False, None, Some ''click_400_q1w2e3r4t''),
                 (500, ''navigate'', False, None, Some ''navigate_500_p0o9i8u7y''),
                 (600, ''click'', False, None, Some ''click_600_z9x8c7v6b''),
                 (800, ''click'', False, None, Some ''click_800_m1n2b3v4c''),
                 (1000, ''click'', False, None, Some ''click_1000_error'')]
                :: execution list"
  have h: "\<forall>(now, toolName, succeeded, domain, requestId) \<in> set ?calls.
             (toolName = ''click'' \<longrightarrow> (\<exists>r. requestId = Some r \<and> r \<noteq> [])) \<and> requestId \<noteq> Some ''click''"
    by simp
  from request_id_keyed_failures [OF h] show ?thesis
    by blast
qed

section \<open>Domains outside the allowlist\<close>

text \<open>
  What \<^verbatim>\<open>checkDomainPolicy\<close> does deny: a host name without an own entry that no
  wildcard entry matches by the test of \<^verbatim>\<open>getDomainPolicy\<close>, whether its name
  resolves to the default policy or to an inherited property of the allowlist.
\<close>

lemma getDomainPolicy_unmatched:
  assumes "map_of (allowlist cfg) domain = None"
      and "\<forall>entry\<in>set (allowlist cfg). \<not> wildcardMatches domain (fst entry)"
  shows "getDomainPolicy cfg domain
           = (if domain \<in> set objectPrototypeKeys then Inherited domain else Own defaultPolicy)"
proof -
  have "find (\<lambda>entry. wildcardMatches domain (fst entry)) (allowlist cfg) = None"
    using assms(2) by (auto simp: find_None_iff)
  with assms(1) show ?thesis
    by (simp add: getDomainPolicy_def lookupAllowlist_def)
qed

lemma unmatched_domain_denied:
  assumes "parse url = Inr hostname"
      and "map_of (allowlist (config pe)) (toLowerCase hostname) = None"
      and "\<forall>entry\<in>set (allowlist (config pe)). \<not> wildcardMatches (toLowerCase hostname) (fst entry)"
  shows "allowed (fst (checkDomainPolicy parse pe now url op)) = False"
proof -
  have "policyAllows (getDomainPolicy (config pe) (toLowerCase hostname)) op = False"
    unfolding getDomainPolicy_unmatched [OF assms(2,3)]
    by (cases op) (simp_all add: defaultPolicy_def)
  then show ?thesis
    by (simp add: checkDomainPolicy_def assms(1) deny_def Let_def split: option.splits)
qed

lemma lower_evilexample:
  "toLowerCase ''evilexample.org'' = ''evilexample.org''"
  "toLowerCase ''https://evilexample.org/'' = ''https://evilexample.org/''"
  by code_simp+

lemma evilexample_not_restricted:
  "find (\<lambda>restricted. startsWith ''https://evilexample.org/'' restricted) RESTRICTED_DOMAINS = None"
  by code_simp

lemma evilexample_policy:
  "getDomainPolicy
     \<lparr>allowlist = [(''example.com'', \<lparr>canRead = True, canWrite = False, approval = None, maxStepsPerHour = None\<rparr>),
                   (''*.example.org'', \<lparr>canRead = True, canWrite = True, approval = None, maxStepsPerHour = None\<rparr>)],
      configPatterns = [], stepBudget = 100, toolTimeoutMs = 30000\<rparr>
     ''evilexample.org''
   = Own \<lparr>canRead = True, canWrite = True, approval = None, maxStepsPerHour = None\<rparr>"
  by (simp add: getDomainPolicy_def lookupAllowlist_def objectPrototypeKeys_def wildcardMatches_def
        startsWith_def endsWith_def slice_def)

text \<open>
  C1 asks that a URL whose host name has no exact entry in the allowlist and matches no
  \<^verbatim>\<open>*.suffix\<close> wildcard entry be denied for \<open>read\<close> and for \<open>write\<close>.
  \<^verbatim>\<open>getDomainPolicy\<close> compares the host name with the wildcard entry stripped of
  \<^verbatim>\<open>*.\<close>, the dot included, so the entry \<^verbatim>\<open>*.example.org\<close> is applied to every host
  name that ends with \<^verbatim>\<open>example.org\<close>. With the allowlist
  \<^verbatim>\<open>{"example.com": {read: true, write: false}, "*.example.org": {read: true, write: true}}\<close>
  the host \<^verbatim>\<open>evilexample.org\<close> has no entry and does not end with \<^verbatim>\<open>.example.org\<close>,
  and \<^verbatim>\<open>checkDomainPolicy\<close> returns \<open>allowed = true\<close> for \<open>read\<close> and for
  \<open>write\<close>.
\<close>

theorem wildcard_entry_allows_foreign_host:
  "map_of [(''example.com'', \<lparr>canRead = True, canWrite = False, approval = None, maxStepsPerHour = None\<rparr>),
           (''*.example.org'', \<lparr>canRead = True, canWrite = True, approval = None, maxStepsPerHour = None\<rparr>)]
     ''evilexample.org'' = None
   \<and> \<not> endsWith ''evilexample.org'' ''.example.org''
   \<and> allowed (fst (checkDomainPolicy (\<lambda>url. Inr ''evilexample.org'')
      (newPolicyEngine
         \<lparr>allowlist = [(''example.com'', \<lparr>canRead = True, canWrite = False, approval = None, maxStepsPerHour = None\<rparr>),
                       (''*.example.org'', \<lparr>canRead = True, canWrite = True, approval = None, maxStepsPerHour = None\<rparr>)],
          configPatterns = [], stepBudget = 100, toolTimeoutMs = 30000\<rparr> 0)
      1000 ''https://evilexample.org/'' Read)) = True
   \<and> allowed (fst (checkDomainPolicy (\<lambda>url. Inr ''evilexample.org'')
      (newPolicyEngine
         \<lparr>allowlist = [(''example.com'', \<lparr>canRead = True, canWrite = False, approval = None, maxStepsPerHour = None\<rparr>),
                       (''*.example.org'', \<lparr>canRead = True, canWrite = True, approval = None, maxStepsPerHour = None\<rparr>)],
          configPatterns = [], stepBudget = 100, toolTimeoutMs = 30000\<rparr> 0)
      1000 ''https://evilexample.org/'' Write)) = True"
  by (simp add: checkDomainPolicy_def newPolicyEngine_def lower_evilexample
        evilexample_not_restricted evilexample_policy checkStepBudget_def Let_def endsWith_def)

section \<open>Redaction\<close>

lemma assignProp_keys: "fst ` set (assignProp k v ps) = insert k (fst ` set ps)"
proof (induction ps)
  case Nil
  then show ?case by simp
next
  case (Cons p ps)
  then show ?case by (cases p) auto
qed

lemma assignProp_distinct: "distinct (map fst ps) \<Longrightarrow> distinct (map fst (assignProp k v ps))"
proof (induction ps)
  case Nil
  then show ?case by simp
next
  case (Cons p ps)
  then show ?case by (cases p) (auto simp: assignProp_keys)
qed

lemma assignProp_set: "set (assignProp k v ps) \<subseteq> insert (k, v) (set ps)"
proof (induction ps)
  case Nil
  then show ?case by simp
next
  case (Cons p ps)
  then show ?case by (cases p) auto
qed

lemma assignProp_new: "k \<notin> fst ` set ps \<Longrightarrow> assignProp k v ps = ps @ [(k, v)]"
  by (induction ps) auto

lemma redactProps_fold:
  "redactProps dr ps acc = fold (\<lambda>kv. setProp (fst kv) (fieldValue dr (fst kv) (snd kv))) ps acc"
  by (induction ps arbitrary: acc) (simp_all add: fieldValue_def)

lemma redactIndexed_props:
  "redactIndexed dr i xs acc = redactProps dr (zip (map showNat [i ..< i + length xs]) xs) acc"
proof (induction xs arbitrary: i acc)
  case Nil
  then show ?case by simp
next
  case (Cons x xs)
  have "[i ..< i + length (x # xs)] = i # [Suc i ..< Suc i + length xs]"
    by (simp add: upt_rec)
  then show ?case
    using Cons.IH [of "Suc i"] by simp
qed

lemma indexedStrings_props:
  "indexedStrings dr i xs = propsStrings dr (zip (map showNat [i ..< i + length xs]) xs)"
proof (induction xs arbitrary: i)
  case Nil
  then show ?case by simp
next
  case (Cons x xs)
  have "[i ..< i + length (x # xs)] = i # [Suc i ..< Suc i + length xs]"
    by (simp add: upt_rec)
  then show ?case
    using Cons.IH [of "Suc i"] by simp
qed

lemma setProp_distinct: "distinct (map fst acc) \<Longrightarrow> distinct (map fst (setProp k v acc))"
  by (simp add: setProp_def assignProp_distinct)

lemma setProp_no_proto:
  "''__proto__'' \<notin> fst ` set acc \<Longrightarrow> ''__proto__'' \<notin> fst ` set (setProp k v acc)"
  by (simp add: setProp_def assignProp_keys)

lemma setProp_set: "set (setProp k v acc) \<subseteq> insert (k, v) (set acc)"
  using assignProp_set [of k v acc] by (auto simp: setProp_def)

lemma build_distinct:
  fixes G :: "string \<Rightarrow> json \<Rightarrow> json"
  shows "distinct (map fst acc) \<Longrightarrow>
     distinct (map fst (fold (\<lambda>kv. setProp (fst kv) (G (fst kv) (snd kv))) ps acc))"
  by (induction ps arbitrary: acc) (simp_all add: setProp_distinct)

lemma build_no_proto:
  fixes G :: "string \<Rightarrow> json \<Rightarrow> json"
  shows "''__proto__'' \<notin> fst ` set acc \<Longrightarrow>
     ''__proto__'' \<notin> fst ` set (fold (\<lambda>kv. setProp (fst kv) (G (fst kv) (snd kv))) ps acc)"
  by (induction ps arbitrary: acc) (simp_all add: setProp_no_proto)

lemma build_elems:
  fixes G :: "string \<Rightarrow> json \<Rightarrow> json"
  assumes "(k, w) \<in> set (fold (\<lambda>kv. setProp (fst kv) (G (fst kv) (snd kv))) ps acc)"
  shows "(k, w) \<in> set acc \<or> (\<exists>v. (k, v) \<in> set ps \<and> w = G k v)"
  using assms
proof (induction ps arbitrary: acc)
  case Nil
  then show ?case by simp
next
  case (Cons kv ps)
  from Cons.prems
  have "(k, w) \<in> set (fold (\<lambda>kv. setProp (fst kv) (G (fst kv) (snd kv))) ps
                        (setProp (fst kv) (G (fst kv) (snd kv)) acc))"
    by simp
  from Cons.IH [OF this]
  consider "(k, w) \<in> set (setProp (fst kv) (G (fst kv) (snd kv)) acc)"
    | "\<exists>v. (k, v) \<in> set ps \<and> w = G k v"
    by blast
  then show ?case
  proof cases
    case 1
    with setProp_set [of "fst kv" "G (fst kv) (snd kv)" acc]
    have "(k, w) = (fst kv, G (fst kv) (snd kv)) \<or> (k, w) \<in> set acc"
      by blast
    then show ?thesis
    proof
      assume "(k, w) = (fst kv, G (fst kv) (snd kv))"
      then have "(k, snd kv) \<in> set (kv # ps)" "w = G k (snd kv)"
        by (cases kv; simp)+
      then show ?thesis by blast
    next
      assume "(k, w) \<in> set acc"
      then show ?thesis by simp
    qed
  next
    case 2
    then show ?thesis by auto
  qed
qed

lemma build_fixed:
  fixes H :: "string \<Rightarrow> json \<Rightarrow> json"
  assumes "distinct (map fst qs)" and "''__proto__'' \<notin> fst ` set qs"
      and "fst ` set qs \<inter> fst ` set acc = {}"
      and "\<forall>(k, w) \<in> set qs. H k w = w"
  shows "fold (\<lambda>kv. setProp (fst kv) (H (fst kv) (snd kv))) qs acc = acc @ qs"
  using assms
proof (induction qs arbitrary: acc)
  case Nil
  then show ?case by simp
next
  case (Cons kv qs)
  obtain k w where kv: "kv = (k, w)" by (cases kv)
  have k: "k \<noteq> ''__proto__''" "k \<notin> fst ` set acc" "H k w = w"
    using Cons.prems kv by auto
  then have step: "setProp (fst kv) (H (fst kv) (snd kv)) acc = acc @ [(k, w)]"
    by (simp add: kv setProp_def assignProp_new)
  have disj: "fst ` set qs \<inter> fst ` set (acc @ [(k, w)]) = {}"
    using Cons.prems(1,3) kv by auto
  have "fold (\<lambda>kv. setProp (fst kv) (H (fst kv) (snd kv))) qs (acc @ [(k, w)]) = (acc @ [(k, w)]) @ qs"
    using Cons.prems by (intro Cons.IH disj) auto
  with step show ?case by (simp add: kv)
qed

lemma fieldValue_idem:
  "(\<not> isSensitiveField dr k \<Longrightarrow> redactValue dr (redactValue dr v) = redactValue dr v) \<Longrightarrow>
     fieldValue dr k (fieldValue dr k v) = fieldValue dr k v"
  by (simp add: fieldValue_def)

lemma redactProps_idem:
  assumes "\<And>k v. (k, v) \<in> set ps \<Longrightarrow> \<not> isSensitiveField dr k \<Longrightarrow>
             redactValue dr (redactValue dr v) = redactValue dr v"
  shows "redactProps dr (redactProps dr ps []) [] = redactProps dr ps []"
proof -
  let ?out = "fold (\<lambda>kv. setProp (fst kv) (fieldValue dr (fst kv) (snd kv))) ps []"
  have d: "distinct (map fst ?out)"
    by (rule build_distinct) simp
  have p: "''__proto__'' \<notin> fst ` set ?out"
    by (rule build_no_proto) simp
  have e: "\<exists>v. (k, v) \<in> set ps \<and> w = fieldValue dr k v" if "(k, w) \<in> set ?out" for k w
    using build_elems [OF that] by simp
  have fixed: "\<forall>(k, w) \<in> set ?out. fieldValue dr k w = w"
  proof clarify
    fix k w assume "(k, w) \<in> set ?out"
    from e [OF this] obtain v where v: "(k, v) \<in> set ps" "w = fieldValue dr k v" by auto
    show "fieldValue dr k w = w"
      unfolding v(2) using assms [OF v(1)] by (rule fieldValue_idem)
  qed
  have "fold (\<lambda>kv. setProp (fst kv) (fieldValue dr (fst kv) (snd kv))) ?out [] = [] @ ?out"
    using d p fixed by (intro build_fixed) auto
  then show ?thesis
    by (simp add: redactProps_fold)
qed


lemma redactItems_map: "redactItems dr xs = map (redactItem dr) xs"
  by (induction xs) simp_all

lemma itemsStrings_concat: "set (itemsStrings dr xs) = (\<Union>x\<in>set xs. set (itemStrings dr x))"
  by (induction xs) auto

lemma propsStrings_member:
  "(k, v) \<in> set ps \<Longrightarrow> \<not> isSensitiveField dr k \<Longrightarrow>
     set (valueStrings dr v) \<subseteq> set (propsStrings dr ps)"
  by (induction ps) auto

lemma redact_idem:
  "((\<forall>s\<in>set (valueStrings dr v). redactString dr (redactString dr s) = redactString dr s) \<longrightarrow>
      redactValue dr (redactValue dr v) = redactValue dr v)
   \<and> ((\<forall>s\<in>set (itemStrings dr v). redactString dr (redactString dr s) = redactString dr s) \<longrightarrow>
      redactItem dr (redactItem dr v) = redactItem dr v)"
proof (induction v)
  case (JArr xs)
  have items: "redactItems dr (redactItems dr xs) = redactItems dr xs"
    if "\<forall>s\<in>set (itemsStrings dr xs). redactString dr (redactString dr s) = redactString dr s"
  proof -
    have "redactItem dr (redactItem dr x) = redactItem dr x" if "x \<in> set xs" for x
      using JArr.IH [OF that] \<open>\<forall>s\<in>set (itemsStrings dr xs). _\<close> that
      by (auto simp: itemsStrings_concat)
    then show ?thesis
      by (simp add: redactItems_map)
  qed
  have indexed: "redactProps dr (redactIndexed dr 0 xs []) [] = redactIndexed dr 0 xs []"
    if h: "\<forall>s\<in>set (indexedStrings dr 0 xs). redactString dr (redactString dr s) = redactString dr s"
  proof -
    let ?ps = "zip (map showNat [0 ..< 0 + length xs]) xs"
    have "redactValue dr (redactValue dr v) = redactValue dr v"
      if "(k, v) \<in> set ?ps" "\<not> isSensitiveField dr k" for k v
    proof -
      have "v \<in> set xs"
        using that(1) by (rule set_zip_rightD)
      moreover have "set (valueStrings dr v) \<subseteq> set (indexedStrings dr 0 xs)"
        using propsStrings_member [OF that] by (simp add: indexedStrings_props)
      ultimately show ?thesis
        using JArr.IH h by blast
    qed
    then have "redactProps dr (redactProps dr ?ps []) [] = redactProps dr ?ps []"
      by (rule redactProps_idem)
    then show ?thesis
      by (simp add: redactIndexed_props)
  qed
  from items indexed show ?case by simp
next
  case (JObj ps)
  have "redactProps dr (redactProps dr ps []) [] = redactProps dr ps []"
    if h: "\<forall>s\<in>set (propsStrings dr ps). redactString dr (redactString dr s) = redactString dr s"
  proof (rule redactProps_idem)
    fix k v assume kv: "(k, v) \<in> set ps" "\<not> isSensitiveField dr k"
    have "v \<in> Basic_BNFs.snds (k, v)" by simp
    from JObj.IH [OF kv(1) this] propsStrings_member [OF kv] h
    show "redactValue dr (redactValue dr v) = redactValue dr v"
      by blast
  qed
  then show ?case by simp
qed simp_all

lemma redact_pass1:
  "redactString (newDataRedactor []) ''x@y.comsk_aaaaaaaaaaaaaaaaaaaaaaaa''
     = ''x@y.coms*************************a''"
  by code_simp

lemma redact_pass2:
  "redactString (newDataRedactor []) ''x@y.coms*************************a''
     = ''x******s*************************a''"
  by code_simp

lemma note_not_sensitive: "isSensitiveField (newDataRedactor []) ''note'' = False"
  by code_simp

text \<open>
  C8, as stated, fails: in \<^verbatim>\<open>{note: "x@y.comsk_aaaaaaaaaaaaaaaaaaaaaaaa"}\<close> the first
  redaction masks the Stripe key, \<^verbatim>\<open>sk_\<close> and 24 letters, and leaves
  \<^verbatim>\<open>x@y.coms\<close> before the first \<^verbatim>\<open>*\<close>. There a word boundary has appeared, so the
  e-mail pattern, which did not match in the first pass, matches in the second one and
  \<^verbatim>\<open>x@y.coms\<close> becomes \<^verbatim>\<open>x******s\<close>.
\<close>

theorem redactObject_twice_counterexample:
  "redactObject (newDataRedactor [])
     (redactObject (newDataRedactor []) [(''note'', JStr ''x@y.comsk_aaaaaaaaaaaaaaaaaaaaaaaa'')])
   \<noteq> redactObject (newDataRedactor []) [(''note'', JStr ''x@y.comsk_aaaaaaaaaaaaaaaaaaaaaaaa'')]"
  by (simp add: redactObject_def setProp_def redact_pass1 redact_pass2 note_not_sensitive)

text \<open>
  C8, amended: \<^verbatim>\<open>redactObject\<close> is idempotent on every acyclic object in which each
  string value that it hands to \<^verbatim>\<open>redactString\<close> (the string values under keys that
  are not sensitive, at any depth) is redacted stably, that is
  \<^verbatim>\<open>redactString(redactString(s))\<close> equals \<^verbatim>\<open>redactString(s)\<close>. The keys, the
  \<^verbatim>\<open>[REDACTED]\<close> markers, the values that are not strings and the shape of the
  result are the same after a second redaction in every case.
\<close>

theorem redactObject_idempotent_on_stable_strings:
  assumes "\<forall>s\<in>set (propsStrings dr obj). redactString dr (redactString dr s) = redactString dr s"
  shows "redactObject dr (redactObject dr obj) = redactObject dr obj"
  using redact_idem [of dr "JObj obj"] assms by (simp add: redactObject_def)

lemma example_strings:
  "propsStrings (newDataRedactor [])
     [(''contact'', JStr ''john@example.com''), (''password'', JStr ''hunter2''),
      (''pins'', JArr [JStr ''1234''])]
   = [''john@example.com'', ''1234'']"
  by code_simp

lemma example_stable:
  "redactString (newDataRedactor []) (redactString (newDataRedactor []) ''john@example.com'')
     = redactString (newDataRedactor []) ''john@example.com''"
  "redactString (newDataRedactor []) (redactString (newDataRedactor []) ''1234'')
     = redactString (newDataRedactor []) ''1234''"
  by code_simp+

theorem redactObject_idempotent_on_stable_strings_witness:
  "redactObject (newDataRedactor [])
     (redactObject (newDataRedactor [])
        [(''contact'', JStr ''john@example.com''), (''password'', JStr ''hunter2''),
         (''pins'', JArr [JStr ''1234''])])
   = redactObject (newDataRedactor [])
       [(''contact'', JStr ''john@example.com''), (''password'', JStr ''hunter2''),
        (''pins'', JArr [JStr ''1234''])]"
proof -
  have "\<forall>s\<in>set (propsStrings (newDataRedactor [])
                   [(''contact'', JStr ''john@example.com''), (''password'', JStr ''hunter2''),
                    (''pins'', JArr [JStr ''1234''])]).
          redactString (newDataRedactor []) (redactString (newDataRedactor []) s)
            = redactString (newDataRedactor []) s"
    unfolding example_strings using example_stable by simp
  then show ?thesis
    by (rule redactObject_idempotent_on_stable_strings)
qed

section \<open>Repeated detection\<close>

text \<open>
  C9 asks that two consecutive calls of \<^verbatim>\<open>containsSensitiveData\<close> on the same string
  give the same answer. On a new redactor the first call on \<^verbatim>\<open>"1234"\<close> answers
  \<open>true\<close> (the pattern for card verification codes matches and its \<^verbatim>\<open>lastIndex\<close>
  stays at 4) and the second call, on the same string, answers \<open>false\<close>.
\<close>

theorem containsSensitiveData_second_call:
  "fst (containsSensitiveData (newDataRedactor []) ''1234'') = True
   \<and> fst (containsSensitiveData (snd (containsSensitiveData (newDataRedactor []) ''1234'')) ''1234'') = False"
  by code_simp

section \<open>The bridge\<close>

lemma settle_fields [simp]:
  "clients (settle p out b) = clients b"
  "pendingRequests (settle p out b) = pendingRequests b"
  "timeouts (settle p out b) = timeouts b"
  "nextPromise (settle p out b) = nextPromise b"
  "nextTimer (settle p out b) = nextTimer b"
  by (simp_all add: settle_def split: option.splits)

lemma settle_settled:
  "settled (settle p out b) q = (if q = p \<and> settled b p = None then Some out else settled b q)"
  by (simp add: settle_def split: option.splits)

lemma clearTimeout_fields [simp]:
  "clients (clearTimeout t b) = clients b"
  "pendingRequests (clearTimeout t b) = pendingRequests b"
  "settled (clearTimeout t b) = settled b"
  "timeouts (clearTimeout t b) = (timeouts b)(t := None)"
  "nextPromise (clearTimeout t b) = nextPromise b"
  "nextTimer (clearTimeout t b) = nextTimer b"
  by (simp_all add: clearTimeout_def)

lemma deletePending_fields [simp]:
  "clients (deletePending k b) = clients b"
  "pendingRequests (deletePending k b) = mapDelete k (pendingRequests b)"
  "settled (deletePending k b) = settled b"
  "timeouts (deletePending k b) = timeouts b"
  "nextPromise (deletePending k b) = nextPromise b"
  "nextTimer (deletePending k b) = nextTimer b"
  by (simp_all add: deletePending_def)

lemma map_of_mapDelete: "map_of (mapDelete k es) k' = (if k' = k then None else map_of es k')"
  by (induction es) (auto simp: mapDelete_def)

lemma set_mapDelete: "set (mapDelete k es) = {e \<in> set es. fst e \<noteq> k}"
  by (auto simp: mapDelete_def)

lemma distinct_mapDelete:
  "distinct (map f es) \<Longrightarrow> distinct (map f (mapDelete k es))"
  by (simp add: mapDelete_def distinct_map_filter)

lemma mapDelete_absent: "k \<notin> fst ` set es \<Longrightarrow> mapDelete k es = es"
  by (induction es) (auto simp: mapDelete_def)

lemma set_mapSet: "set (mapSet k v es) \<subseteq> insert (k, v) (set es)"
  by (induction es) auto

lemma keys_mapSet: "fst ` set (mapSet k v es) = insert k (fst ` set es)"
  by (induction es) auto

lemma mapSet_old:
  "distinct (map fst es) \<Longrightarrow> e \<in> set (mapSet k v es) \<Longrightarrow> e = (k, v) \<or> (e \<in> set es \<and> fst e \<noteq> k)"
  by (induction es) (auto split: if_splits)

lemma distinct_keys_mapSet: "distinct (map fst es) \<Longrightarrow> distinct (map fst (mapSet k v es))"
  by (induction es) (auto simp: keys_mapSet)

lemma promise_inj:
  assumes "distinct (map (\<lambda>e. pr_promise (snd e)) es)" "(k, r) \<in> set es" "(k', r') \<in> set es"
      and "pr_promise r = pr_promise r'"
  shows "k = k'"
proof -
  have "inj_on (\<lambda>e. pr_promise (snd e)) (set es)"
    using assms(1) by (simp add: distinct_map)
  from inj_onD [OF this, of "(k, r)" "(k', r')"] assms(2-4) show ?thesis
    by simp
qed

lemma inv_clients [simp]: "bridgeInv (b\<lparr>clients := c\<rparr>) = bridgeInv b"
  by (simp add: bridgeInv_def)

lemma invD_keys: "bridgeInv b \<Longrightarrow> distinct (map fst (pendingRequests b))"
  and invD_promises: "bridgeInv b \<Longrightarrow> distinct (map (\<lambda>e. pr_promise (snd e)) (pendingRequests b))"
  by (simp_all add: bridgeInv_def)

lemma invD_entry:
  assumes "bridgeInv b" "(k, r) \<in> set (pendingRequests b)"
  shows "pr_id r = k" "settled b (pr_promise r) = None" "pr_promise r < nextPromise b"
  using assms unfolding bridgeInv_def by blast+

lemma invD_timer:
  assumes "bridgeInv b" "timeouts b tid = Some (mid, p)"
  shows "p < nextPromise b" "(k, r) \<in> set (pendingRequests b) \<Longrightarrow> pr_promise r = p \<Longrightarrow> k = mid"
  using assms unfolding bridgeInv_def by blast+

lemma invD_settled: "bridgeInv b \<Longrightarrow> settled b q = Some out \<Longrightarrow> q < nextPromise b"
  unfolding bridgeInv_def by blast

lemma bridgeInvI:
  assumes "distinct (map fst (pendingRequests b))"
      and "distinct (map (\<lambda>e. pr_promise (snd e)) (pendingRequests b))"
      and "\<And>k r. (k, r) \<in> set (pendingRequests b) \<Longrightarrow>
             pr_id r = k \<and> settled b (pr_promise r) = None \<and> pr_promise r < nextPromise b"
      and "\<And>tid mid p. timeouts b tid = Some (mid, p) \<Longrightarrow> p < nextPromise b"
      and "\<And>tid mid p k r. timeouts b tid = Some (mid, p) \<Longrightarrow> (k, r) \<in> set (pendingRequests b) \<Longrightarrow>
             pr_promise r = p \<Longrightarrow> k = mid"
      and "\<And>q out. settled b q = Some out \<Longrightarrow> q < nextPromise b"
  shows "bridgeInv b"
  unfolding bridgeInv_def using assms by blast

text \<open>Removing entries, clearing timers and settling a promise that no remaining entry holds.\<close>

lemma inv_shrink:
  assumes inv: "bridgeInv b"
      and sub: "set (pendingRequests b') \<subseteq> set (pendingRequests b)"
      and dk: "distinct (map fst (pendingRequests b'))"
      and dp: "distinct (map (\<lambda>e. pr_promise (snd e)) (pendingRequests b'))"
      and tm: "\<And>tid t. timeouts b' tid = Some t \<Longrightarrow> timeouts b tid = Some t"
      and st: "\<And>k r. (k, r) \<in> set (pendingRequests b') \<Longrightarrow> settled b' (pr_promise r) = None"
      and bd: "\<And>q out. settled b' q = Some out \<Longrightarrow> q < nextPromise b"
      and np: "nextPromise b' = nextPromise b"
  shows "bridgeInv b'"
proof (rule bridgeInvI)
  show "distinct (map fst (pendingRequests b'))" by (rule dk)
  show "distinct (map (\<lambda>e. pr_promise (snd e)) (pendingRequests b'))" by (rule dp)
next
  fix k r assume e: "(k, r) \<in> set (pendingRequests b')"
  then have "(k, r) \<in> set (pendingRequests b)" using sub by blast
  from invD_entry [OF inv this] st [OF e] np
  show "pr_id r = k \<and> settled b' (pr_promise r) = None \<and> pr_promise r < nextPromise b'"
    by simp
next
  fix tid mid p assume "timeouts b' tid = Some (mid, p)"
  then have "timeouts b tid = Some (mid, p)" by (rule tm)
  from invD_timer(1) [OF inv this] np show "p < nextPromise b'" by simp
next
  fix tid mid p k r
  assume "timeouts b' tid = Some (mid, p)" "(k, r) \<in> set (pendingRequests b')" "pr_promise r = p"
  then have "timeouts b tid = Some (mid, p)" "(k, r) \<in> set (pendingRequests b)"
    using tm sub by blast+
  from invD_timer(2) [OF inv this] \<open>pr_promise r = p\<close> show "k = mid" by simp
next
  fix q out assume "settled b' q = Some out"
  from bd [OF this] np show "q < nextPromise b'" by simp
qed

lemma inv_remove:
  assumes "bridgeInv b" and "(k, r) \<in> set (pendingRequests b)"
  shows "bridgeInv (settle (pr_promise r) out (deletePending k (clearTimeout t b)))"
proof (rule inv_shrink [OF assms(1)])
  fix k' r'
  assume "(k', r') \<in> set (pendingRequests (settle (pr_promise r) out (deletePending k (clearTimeout t b))))"
  then have e: "(k', r') \<in> set (pendingRequests b)" "k' \<noteq> k"
    by (simp_all add: set_mapDelete)
  have "pr_promise r' \<noteq> pr_promise r"
    using promise_inj [OF invD_promises [OF assms(1)] e(1) assms(2)] e(2) by blast
  with invD_entry(2) [OF assms(1) e(1)]
  show "settled (settle (pr_promise r) out (deletePending k (clearTimeout t b))) (pr_promise r') = None"
    by (simp add: settle_settled)
next
  fix q out' assume "settled (settle (pr_promise r) out (deletePending k (clearTimeout t b))) q = Some out'"
  then show "q < nextPromise b"
    using invD_entry(3) [OF assms] invD_settled [OF assms(1)]
    by (auto simp: settle_settled split: if_splits)
qed (auto simp: set_mapDelete distinct_mapDelete invD_keys [OF assms(1)] invD_promises [OF assms(1)]
       split: if_splits)

lemma inv_timeout:
  assumes "bridgeInv b" and "timeouts b tid = Some (mid, p)"
  shows "bridgeInv (settle p out (deletePending mid (clearTimeout tid b)))"
proof (rule inv_shrink [OF assms(1)])
  fix k' r'
  assume "(k', r') \<in> set (pendingRequests (settle p out (deletePending mid (clearTimeout tid b))))"
  then have e: "(k', r') \<in> set (pendingRequests b)" "k' \<noteq> mid"
    by (simp_all add: set_mapDelete)
  have "pr_promise r' \<noteq> p"
    using invD_timer(2) [OF assms e(1)] e(2) by blast
  with invD_entry(2) [OF assms(1) e(1)]
  show "settled (settle p out (deletePending mid (clearTimeout tid b))) (pr_promise r') = None"
    by (simp add: settle_settled)
next
  fix q out' assume "settled (settle p out (deletePending mid (clearTimeout tid b))) q = Some out'"
  then show "q < nextPromise b"
    using invD_timer(1) [OF assms] invD_settled [OF assms(1)]
    by (auto simp: settle_settled split: if_splits)
qed (auto simp: set_mapDelete distinct_mapDelete invD_keys [OF assms(1)] invD_promises [OF assms(1)]
       split: if_splits)

lemma deletePending_settle: "deletePending k (settle p out b) = settle p out (deletePending k b)"
  by (simp add: deletePending_def settle_def split: option.splits)

lemma inv_reject_delete:
  assumes "bridgeInv b" and "(k, r) \<in> set (pendingRequests b)"
  shows "bridgeInv (deletePending (pr_id r) (rejectRequest message r b))"
  using inv_remove [OF assms] invD_entry(1) [OF assms]
  by (simp add: rejectRequest_def deletePending_settle)

text \<open>A loop over the pending requests whose body keeps the invariant and only deletes.\<close>

lemma forEach_fold_inv:
  assumes body: "\<And>k r b'. bridgeInv b' \<Longrightarrow> (k, r) \<in> set (pendingRequests b') \<Longrightarrow>
                   bridgeInv (body r b') \<and> set (pendingRequests (body r b')) \<subseteq> set (pendingRequests b')"
      and dk: "distinct (map fst es)"
      and "set xs \<subseteq> set es" "bridgeInv b'" "set (pendingRequests b') \<subseteq> set es"
  shows "bridgeInv (fold (\<lambda>entry b'. if map_of (pendingRequests b') (fst entry) = None then b'
                                      else body (snd entry) b') xs b')"
  using assms(3-5)
proof (induction xs arbitrary: b')
  case Nil
  then show ?case by simp
next
  case (Cons x xs)
  obtain k r where x: "x = (k, r)" by (cases x)
  let ?b = "if map_of (pendingRequests b') (fst x) = None then b' else body (snd x) b'"
  have "bridgeInv ?b \<and> set (pendingRequests ?b) \<subseteq> set es"
  proof (cases "map_of (pendingRequests b') k")
    case None
    then show ?thesis using Cons.prems by (simp add: x)
  next
    case (Some r')
    then have in': "(k, r') \<in> set (pendingRequests b')" by (rule map_of_SomeD)
    then have "(k, r') \<in> set es" using Cons.prems(3) by blast
    moreover have "(k, r) \<in> set es" using Cons.prems(1) x by simp
    ultimately have "r' = r"
      using dk by (meson eq_key_imp_eq_value)
    with in' have "(k, r) \<in> set (pendingRequests b')" by simp
    from body [OF Cons.prems(2) this] Cons.prems(3) Some show ?thesis
      by (auto simp: x)
  qed
  then show ?case
    using Cons.IH [of ?b] Cons.prems(1) by simp
qed

lemma forEach_inv:
  assumes "\<And>k r b'. bridgeInv b' \<Longrightarrow> (k, r) \<in> set (pendingRequests b') \<Longrightarrow>
             bridgeInv (body r b') \<and> set (pendingRequests (body r b')) \<subseteq> set (pendingRequests b')"
      and "bridgeInv b"
  shows "bridgeInv (forEachPending body b)"
  unfolding forEachPending_def
  by (rule forEach_fold_inv [OF assms(1) invD_keys [OF assms(2)] _ assms(2)]) simp_all

lemma inv_rejectPending:
  assumes "bridgeInv b"
  shows "bridgeInv (rejectPendingRequestsForClient b)"
  unfolding rejectPendingRequestsForClient_def
proof (rule forEach_inv [OF _ assms])
  fix k r b' assume "bridgeInv b'" "(k, r) \<in> set (pendingRequests b')"
  then show "bridgeInv (deletePending (pr_id r) (rejectRequest ''Client disconnected'' r b')) \<and>
             set (pendingRequests (deletePending (pr_id r) (rejectRequest ''Client disconnected'' r b')))
               \<subseteq> set (pendingRequests b')"
    using inv_reject_delete by (auto simp: rejectRequest_def set_mapDelete)
qed

lemma inv_cleanup:
  assumes "bridgeInv b"
  shows "bridgeInv (cleanupStaleRequests b now)"
  unfolding cleanupStaleRequests_def
proof (rule forEach_inv [OF _ assms])
  fix k r b' assume "bridgeInv b'" "(k, r) \<in> set (pendingRequests b')"
  then show "bridgeInv (if now - pr_timestamp r > requestTimeoutMs
                         then deletePending (pr_id r) (rejectRequest ''Request expired'' r b') else b') \<and>
             set (pendingRequests (if now - pr_timestamp r > requestTimeoutMs
                         then deletePending (pr_id r) (rejectRequest ''Request expired'' r b') else b'))
               \<subseteq> set (pendingRequests b')"
    using inv_reject_delete by (auto simp: rejectRequest_def set_mapDelete)
qed

lemma close_fold:
  assumes "\<forall>(k, r)\<in>set xs. pr_promise r < N"
      and "nextPromise b' = N"
      and "\<forall>tid t. timeouts b' tid = Some t \<longrightarrow> snd t < N"
      and "\<forall>q out. settled b' q = Some out \<longrightarrow> q < N"
  shows "nextPromise (fold (\<lambda>entry b'. if map_of (pendingRequests b') (fst entry) = None then b'
                                        else rejectRequest message (snd entry) b') xs b') = N
       \<and> (\<forall>tid t. timeouts (fold (\<lambda>entry b'. if map_of (pendingRequests b') (fst entry) = None then b'
                                        else rejectRequest message (snd entry) b') xs b') tid = Some t
                     \<longrightarrow> snd t < N)
       \<and> (\<forall>q out. settled (fold (\<lambda>entry b'. if map_of (pendingRequests b') (fst entry) = None then b'
                                        else rejectRequest message (snd entry) b') xs b') q = Some out
                     \<longrightarrow> q < N)"
  using assms
proof (induction xs arbitrary: b')
  case Nil
  then show ?case by simp
next
  case (Cons x xs)
  let ?b = "if map_of (pendingRequests b') (fst x) = None then b' else rejectRequest message (snd x) b'"
  have p: "pr_promise (snd x) < N"
    using Cons.prems(1) by (cases x) simp
  have 1: "nextPromise ?b = N"
    using Cons.prems(2) by (simp add: rejectRequest_def)
  have 2: "\<forall>tid t. timeouts ?b tid = Some t \<longrightarrow> snd t < N"
    using Cons.prems(3) by (auto simp: rejectRequest_def split: if_splits)
  have 3: "\<forall>q out. settled ?b q = Some out \<longrightarrow> q < N"
    using Cons.prems(4) p by (auto simp: rejectRequest_def settle_settled split: if_splits)
  have rest: "\<forall>(k, r)\<in>set xs. pr_promise r < N"
    using Cons.prems(1) by simp
  from Cons.IH [OF rest 1 2 3] show ?case by simp
qed

lemma inv_close:
  assumes "bridgeInv b"
  shows "bridgeInv (closeBridge b)"
proof -
  have entries: "\<forall>(k, r)\<in>set (pendingRequests b). pr_promise r < nextPromise b"
    using invD_entry(3) [OF assms] by blast
  have timers: "\<forall>tid t. timeouts b tid = Some t \<longrightarrow> snd t < nextPromise b"
    using invD_timer(1) [OF assms] by (metis prod.collapse)
  have bound: "\<forall>q out. settled b q = Some out \<longrightarrow> q < nextPromise b"
    using invD_settled [OF assms] by blast
  from close_fold [OF entries refl timers bound, of "''Server shutting down''"]
  show ?thesis
    unfolding closeBridge_def forEachPending_def Let_def
    by (intro bridgeInvI) auto
qed

lemma mapSet_member: "(k, v) \<in> set (mapSet k v es)"
  by (induction es) auto

lemma distinct_promises_mapSet:
  assumes "distinct (map (\<lambda>e. pr_promise (snd e)) es)"
      and "\<forall>e\<in>set es. pr_promise (snd e) \<noteq> pr_promise v"
  shows "distinct (map (\<lambda>e. pr_promise (snd e)) (mapSet k v es))"
  using assms
proof (induction es)
  case Nil
  then show ?case by simp
next
  case (Cons e es)
  have fresh: "pr_promise (snd e) \<notin> (\<lambda>e. pr_promise (snd e)) ` set es"
    and new: "pr_promise (snd e) \<noteq> pr_promise v"
    using Cons.prems by auto
  have "pr_promise (snd e') \<noteq> pr_promise (snd e)" if "e' \<in> set (mapSet k v es)" for e'
  proof -
    from set_mapSet [of k v es] that have "e' = (k, v) \<or> e' \<in> set es" by blast
    with fresh new show ?thesis by (metis image_eqI snd_conv)
  qed
  then have notin: "pr_promise (snd e) \<notin> (\<lambda>e. pr_promise (snd e)) ` set (mapSet k v es)"
    by force
  have ih: "distinct (map (\<lambda>e. pr_promise (snd e)) (mapSet k v es))"
    using Cons by simp
  show ?case
  proof (cases "fst e = k")
    case True
    have "pr_promise v \<notin> (\<lambda>e. pr_promise (snd e)) ` set es"
      using Cons.prems(2) by force
    with True Cons.prems(1) show ?thesis by simp
  next
    case False
    with notin ih show ?thesis by simp
  qed
qed

lemma inv_store:
  assumes "bridgeInv b"
  shows "bridgeInv (b\<lparr>nextPromise := Suc (nextPromise b), nextTimer := n,
                      timeouts := (timeouts b)(tid \<mapsto> (messageId, nextPromise b)),
                      pendingRequests :=
                        mapSet messageId
                          \<lparr>pr_id = messageId, pr_promise = nextPromise b, pr_timestamp = now,
                           pr_timeoutId = tid\<rparr>
                          (pendingRequests b)\<rparr>)"
    (is "bridgeInv ?b")
proof (rule bridgeInvI)
  let ?new = "\<lparr>pr_id = messageId, pr_promise = nextPromise b, pr_timestamp = now, pr_timeoutId = tid\<rparr>"
  have old: "e = (messageId, ?new) \<or> (e \<in> set (pendingRequests b) \<and> fst e \<noteq> messageId)"
    if "e \<in> set (pendingRequests ?b)" for e
    using mapSet_old [OF invD_keys [OF assms], of e messageId ?new] that by simp
  have below: "pr_promise r < nextPromise b" if "(k, r) \<in> set (pendingRequests b)" for k r
    using invD_entry(3) [OF assms that] .
  show "distinct (map fst (pendingRequests ?b))"
    using invD_keys [OF assms] by (simp add: distinct_keys_mapSet)
  show "distinct (map (\<lambda>e. pr_promise (snd e)) (pendingRequests ?b))"
    using invD_promises [OF assms] below by (fastforce intro: distinct_promises_mapSet)
  show "pr_id r = k \<and> settled ?b (pr_promise r) = None \<and> pr_promise r < nextPromise ?b"
    if "(k, r) \<in> set (pendingRequests ?b)" for k r
  proof -
    from old [OF that] show ?thesis
    proof
      assume "(k, r) = (messageId, ?new)"
      moreover have "settled b (nextPromise b) = None"
        using invD_settled [OF assms, of "nextPromise b"] by (cases "settled b (nextPromise b)") auto
      ultimately show ?thesis by auto
    next
      assume "(k, r) \<in> set (pendingRequests b) \<and> fst (k, r) \<noteq> messageId"
      then show ?thesis
        using invD_entry [OF assms, of k r] by auto
    qed
  qed
  show "p < nextPromise ?b" if "timeouts ?b t = Some (mid, p)" for t mid p
    using that invD_timer(1) [OF assms, of t mid p] by (auto split: if_splits)
  show "k = mid"
    if "timeouts ?b t = Some (mid, p)" "(k, r) \<in> set (pendingRequests ?b)" "pr_promise r = p"
    for t mid p k r
  proof -
    from old [OF that(2)] show ?thesis
    proof
      assume new: "(k, r) = (messageId, ?new)"
      show ?thesis
      proof (cases "t = tid")
        case True
        with that(1) new show ?thesis by simp
      next
        case False
        with that(1) have "timeouts b t = Some (mid, p)" by simp
        from invD_timer(1) [OF assms this] new that(3) show ?thesis by auto
      qed
    next
      assume o: "(k, r) \<in> set (pendingRequests b) \<and> fst (k, r) \<noteq> messageId"
      show ?thesis
      proof (cases "t = tid")
        case True
        with that(1) have "p = nextPromise b" by simp
        with below [of k r] o that(3) show ?thesis by simp
      next
        case False
        with that(1) have "timeouts b t = Some (mid, p)" by simp
        from invD_timer(2) [OF assms this, of k r] o that(3) show ?thesis by simp
      qed
    qed
  qed
  show "q < nextPromise ?b" if "settled ?b q = Some out" for q out
    using that invD_settled [OF assms, of q out] by simp
qed

lemma inv_sendCommand:
  assumes "bridgeInv b"
  shows "bridgeInv (snd (sendCommand b now messageId sendError cmd args))"
proof (cases "clients b")
  case Nil
  then show ?thesis using assms by (simp add: sendCommand_def)
next
  case (Cons first rest)
  let ?new = "\<lparr>pr_id = messageId, pr_promise = nextPromise b, pr_timestamp = now,
               pr_timeoutId = nextTimer b\<rparr>"
  let ?b1 = "b\<lparr>nextPromise := Suc (nextPromise b), nextTimer := Suc (nextTimer b),
                timeouts := (timeouts b)(nextTimer b \<mapsto> (messageId, nextPromise b)),
                pendingRequests := mapSet messageId ?new (pendingRequests b)\<rparr>"
  have b1: "bridgeInv ?b1"
    using assms by (rule inv_store)
  have mem: "(messageId, ?new) \<in> set (pendingRequests ?b1)"
    by (simp add: mapSet_member)
  have failed: "bridgeInv (settle (nextPromise b) out (deletePending messageId (clearTimeout (nextTimer b) ?b1)))"
    for out
    using inv_remove [OF b1 mem, of out "nextTimer b"] by simp
  show ?thesis
    using b1 failed by (simp add: sendCommand_def Cons Let_def split: option.splits)
qed

lemma inv_handleResponse:
  assumes "bridgeInv b"
  shows "bridgeInv (handleResponse b now clientId response)"
proof (cases "map_of (clients b) clientId")
  case None
  then show ?thesis using assms by (simp add: handleResponse_def)
next
  case (Some client)
  let ?b1 = "b\<lparr>clients := mapSet clientId (client\<lparr>lastActivity := now\<rparr>) (clients b)\<rparr>"
  have b1: "bridgeInv ?b1" using assms by simp
  show ?thesis
  proof (cases "map_of (pendingRequests b) (replyTo response)")
    case None
    then show ?thesis using b1 Some by (simp add: handleResponse_def)
  next
    case (Some r)
    then have "(replyTo response, r) \<in> set (pendingRequests ?b1)"
      by (simp add: map_of_SomeD)
    from inv_remove [OF b1 this] Some \<open>map_of (clients b) clientId = Some client\<close>
    show ?thesis
      by (simp add: handleResponse_def Let_def split: option.splits)
  qed
qed

lemma reachable_inv: "reachable b \<Longrightarrow> bridgeInv b"
proof (induction rule: reachable.induct)
  case initial
  then show ?case by (simp add: bridgeInv_def newBridge_def)
next
  case (connection b now clientId)
  then show ?case by (simp add: onConnection_def)
next
  case (closing b clientId)
  then show ?case by (simp add: socketClosing_def split: option.splits)
next
  case (message b now clientId parsed)
  then show ?case by (simp add: onMessage_def inv_handleResponse split: option.splits)
next
  case (closed b clientId)
  then show ?case by (simp add: onClose_def inv_rejectPending)
next
  case (failed b clientId)
  then show ?case by (simp add: onError_def inv_rejectPending)
next
  case (sent b now messageId sendError cmd args)
  from sent.IH show ?case by (rule inv_sendCommand)
next
  case (timeout b tid)
  show ?case
  proof (cases "timeouts b tid")
    case None
    then show ?thesis using timeout.IH by (simp add: timeoutFired_def)
  next
    case (Some t)
    obtain mid p where t: "t = (mid, p)" by (cases t)
    from inv_timeout [OF timeout.IH, of tid mid p] Some t show ?thesis
      by (simp add: timeoutFired_def)
  qed
next
  case (cleanup b now)
  from cleanup.IH show ?case by (rule inv_cleanup)
next
  case (shutdown b)
  from shutdown.IH show ?case by (rule inv_close)
qed

lemma reject_loop:
  assumes "distinct (map fst es)" and "\<forall>(k, r)\<in>set es. pr_id r = k" and "pendingRequests b = es"
  shows "pendingRequests
           (fold (\<lambda>entry b'. if map_of (pendingRequests b') (fst entry) = None then b'
                              else deletePending (pr_id (snd entry)) (rejectRequest message (snd entry) b'))
              es b) = []
       \<and> (\<forall>q. settled
                 (fold (\<lambda>entry b'. if map_of (pendingRequests b') (fst entry) = None then b'
                              else deletePending (pr_id (snd entry)) (rejectRequest message (snd entry) b'))
                    es b) q
               = (if q \<in> (\<lambda>e. pr_promise (snd e)) ` set es \<and> settled b q = None
                  then Some (Rejected message) else settled b q))"
    (is "pendingRequests (fold ?F es b) = [] \<and> _")
  using assms
proof (induction es arbitrary: b)
  case Nil
  then show ?case by simp
next
  case (Cons e es)
  obtain k r where e: "e = (k, r)" by (cases e)
  have id: "pr_id r = k" and fresh: "k \<notin> fst ` set es"
    using Cons.prems(1,2) e by auto
  define b1 where "b1 = deletePending (pr_id r) (rejectRequest message r b)"
  have "mapDelete k ((k, r) # es) = mapDelete k es"
    by (simp add: mapDelete_def)
  then have p1: "pendingRequests b1 = es"
    using Cons.prems(3) mapDelete_absent [OF fresh]
    by (simp add: b1_def e id rejectRequest_def)
  have s1: "settled b1 q = (if q = pr_promise r \<and> settled b q = None then Some (Rejected message)
                            else settled b q)" for q
    by (auto simp: b1_def rejectRequest_def settle_settled)
  have d: "distinct (map fst es)" and ids: "\<forall>(k, r)\<in>set es. pr_id r = k"
    using Cons.prems(1,2) by simp_all
  have step: "fold ?F (e # es) b = fold ?F es b1"
    using Cons.prems(3) by (simp add: e b1_def)
  from Cons.IH [OF d ids p1]
  have pend: "pendingRequests (fold ?F es b1) = []"
    and st: "settled (fold ?F es b1) q
               = (if q \<in> (\<lambda>e. pr_promise (snd e)) ` set es \<and> settled b1 q = None
                  then Some (Rejected message) else settled b1 q)" for q
    by blast+
  have "settled (fold ?F es b1) q
          = (if q \<in> (\<lambda>e. pr_promise (snd e)) ` set (e # es) \<and> settled b q = None
             then Some (Rejected message) else settled b q)" for q
    unfolding st s1 by (auto simp: e)
  with pend show ?case
    unfolding step by blast
qed

lemma rejectPending_result:
  assumes "bridgeInv b"
  shows "pendingRequests (rejectPendingRequestsForClient b) = []"
    and "(k, r) \<in> set (pendingRequests b) \<Longrightarrow>
           settled (rejectPendingRequestsForClient b) (pr_promise r) = Some (Rejected ''Client disconnected'')"
proof -
  have ids: "\<forall>(k, r)\<in>set (pendingRequests b). pr_id r = k"
    using invD_entry(1) [OF assms] by blast
  note loop = reject_loop [OF invD_keys [OF assms] ids refl, of "''Client disconnected''"]
  show "pendingRequests (rejectPendingRequestsForClient b) = []"
    using loop by (simp add: rejectPendingRequestsForClient_def forEachPending_def)
  assume e: "(k, r) \<in> set (pendingRequests b)"
  then have "pr_promise r \<in> (\<lambda>e. pr_promise (snd e)) ` set (pendingRequests b)"
    by force
  with loop invD_entry(2) [OF assms e]
  show "settled (rejectPendingRequestsForClient b) (pr_promise r) = Some (Rejected ''Client disconnected'')"
    by (simp add: rejectPendingRequestsForClient_def forEachPending_def)
qed

lemma handleResponse_unknown:
  assumes "map_of (pendingRequests b) (replyTo response) = None"
  shows "pendingRequests (handleResponse b now clientId response) = pendingRequests b
       \<and> settled (handleResponse b now clientId response) = settled b
       \<and> timeouts (handleResponse b now clientId response) = timeouts b"
  using assms by (simp add: handleResponse_def Let_def split: option.splits)

lemma timeoutFired_removes:
  "timeouts b tid = Some (mid, p) \<Longrightarrow> map_of (pendingRequests (timeoutFired b tid)) mid = None"
  by (simp add: timeoutFired_def map_of_mapDelete)

text \<open>
  C3: for every command and payload, \<^verbatim>\<open>sendCommand\<close> called while no client is
  connected fails at once with the error \<^verbatim>\<open>No extension clients connected\<close> and
  leaves the bridge as it was: nothing is added to the pending requests and nothing is
  removed from them.
\<close>

theorem sendCommand_without_clients:
  assumes "clients b = []"
  shows "sendCommand b now messageId sendError cmd args = (Inl ''No extension clients connected'', b)"
  using assms by (simp add: sendCommand_def)

theorem sendCommand_without_clients_witness:
  "clients newBridge = []
   \<and> sendCommand newBridge 0 ''6f1c'' None ''click'' [(''selector'', JStr ''#go'')]
       = (Inl ''No extension clients connected'', newBridge)
   \<and> pendingRequests (snd (sendCommand newBridge 0 ''6f1c'' None ''click'' [(''selector'', JStr ''#go'')])) = []"
  using sendCommand_without_clients [of newBridge 0 "''6f1c''" None "''click''" "[(''selector'', JStr ''#go'')]"]
  by (simp add: newBridge_def)

text \<open>
  C4: a response whose \<^verbatim>\<open>replyTo\<close> matches no pending request is dropped. The handler
  returns normally, no promise is settled, and the pending requests and their timers
  are as before. This covers the late response: once the timer of a request has fired,
  its entry is gone and its promise is rejected with the timeout error (unless it was
  settled before), and a response for it that arrives afterwards changes nothing.
\<close>

theorem unknown_response_dropped:
  "(map_of (pendingRequests b) (replyTo response) = None \<longrightarrow>
      pendingRequests (handleResponse b now clientId response) = pendingRequests b
    \<and> settled (handleResponse b now clientId response) = settled b
    \<and> timeouts (handleResponse b now clientId response) = timeouts b)
   \<and> (timeouts b tid = Some (replyTo response, p) \<longrightarrow>
      pendingRequests (handleResponse (timeoutFired b tid) now clientId response)
        = pendingRequests (timeoutFired b tid)
    \<and> settled (handleResponse (timeoutFired b tid) now clientId response)
        = settled (timeoutFired b tid)
    \<and> settled (timeoutFired b tid) p
        = (case settled b p of None \<Rightarrow> Some (Rejected ''Request timeout after 30000ms'') | Some out \<Rightarrow> Some out)
    \<and> timeouts (handleResponse (timeoutFired b tid) now clientId response)
        = timeouts (timeoutFired b tid))"
  using handleResponse_unknown [of b response now clientId]
    handleResponse_unknown [of "timeoutFired b tid" response now clientId]
    timeoutFired_removes [of b tid "replyTo response" p]
  by (auto simp: timeoutFired_def settle_settled split: option.splits)


theorem unknown_response_dropped_witness:
  "timeouts (snd (sendCommand (onConnection newBridge 0 ''c1'') 10 ''m1'' None ''click'' [])) 0
     = Some (''m1'', 0)
   \<and> pendingRequests
        (handleResponse
           (timeoutFired (snd (sendCommand (onConnection newBridge 0 ''c1'') 10 ''m1'' None ''click'' [])) 0)
           30011 ''c1'' \<lparr>replyTo = ''m1'', payload = JObj [(''success'', JBool True)], response_error = None\<rparr>)
       = []
   \<and> settled
        (handleResponse
           (timeoutFired (snd (sendCommand (onConnection newBridge 0 ''c1'') 10 ''m1'' None ''click'' [])) 0)
           30011 ''c1'' \<lparr>replyTo = ''m1'', payload = JObj [(''success'', JBool True)], response_error = None\<rparr>)
        0
       = Some (Rejected ''Request timeout after 30000ms'')
   \<and> map_of (pendingRequests (snd (sendCommand (onConnection newBridge 0 ''c1'') 10 ''m1'' None ''click'' [])))
        ''m9'' = None
   \<and> pendingRequests
        (handleResponse (snd (sendCommand (onConnection newBridge 0 ''c1'') 10 ''m1'' None ''click'' []))
           20 ''c1'' \<lparr>replyTo = ''m9'', payload = JNull, response_error = None\<rparr>)
       = [(''m1'', \<lparr>pr_id = ''m1'', pr_promise = 0, pr_timestamp = 10, pr_timeoutId = 0\<rparr>)]
   \<and> settled
        (handleResponse (snd (sendCommand (onConnection newBridge 0 ''c1'') 10 ''m1'' None ''click'' []))
           20 ''c1'' \<lparr>replyTo = ''m9'', payload = JNull, response_error = None\<rparr>) 0
       = None"
proof -
  let ?b = "snd (sendCommand (onConnection newBridge 0 ''c1'') 10 ''m1'' None ''click'' [])"
  have t: "timeouts ?b 0 = Some (''m1'', 0)"
    and p: "pendingRequests ?b = [(''m1'', \<lparr>pr_id = ''m1'', pr_promise = 0, pr_timestamp = 10, pr_timeoutId = 0\<rparr>)]"
    and s: "settled ?b = Map.empty"
    by (simp_all add: sendCommand_def onConnection_def newBridge_def Let_def)
  from unknown_response_dropped
         [of ?b "\<lparr>replyTo = ''m1'', payload = JObj [(''success'', JBool True)], response_error = None\<rparr>"
             30011 "''c1''" 0 0]
       unknown_response_dropped
         [of ?b "\<lparr>replyTo = ''m9'', payload = JNull, response_error = None\<rparr>" 20 "''c1''" 0 0]
       t p s
  show ?thesis
    by (simp add: timeoutFired_def mapDelete_def)
qed

text \<open>
  C5: in every state the bridge can reach, when a client disconnects (its socket
  emits \<^verbatim>\<open>close\<close> or \<^verbatim>\<open>error\<close>, which are handled alike) the client is removed and
  every pending request, whichever client it was sent to, is rejected with the error
  \<^verbatim>\<open>Client disconnected\<close>; the map of pending requests is left empty.
\<close>

theorem disconnect_rejects_all_pending:
  assumes "reachable b"
  shows "map_of (clients (onClose b clientId)) clientId = None
       \<and> pendingRequests (onClose b clientId) = []
       \<and> (\<forall>(k, r)\<in>set (pendingRequests b).
             settled (onClose b clientId) (pr_promise r) = Some (Rejected ''Client disconnected''))
       \<and> onError b clientId = onClose b clientId"
proof -
  let ?b = "b\<lparr>clients := mapDelete clientId (clients b)\<rparr>"
  have inv: "bridgeInv ?b"
    using reachable_inv [OF assms] by simp
  have c: "clients (rejectPendingRequestsForClient ?b) = clients ?b"
  proof -
    have "clients (fold (\<lambda>entry b'. if map_of (pendingRequests b') (fst entry) = None then b'
                     else deletePending (pr_id (snd entry))
                            (rejectRequest ''Client disconnected'' (snd entry) b')) es b0) = clients b0"
      for es b0
      by (induction es arbitrary: b0) (simp_all add: rejectRequest_def)
    then show ?thesis
      by (simp add: rejectPendingRequestsForClient_def forEachPending_def)
  qed
  from rejectPending_result [OF inv] c show ?thesis
    by (auto simp: onClose_def onError_def map_of_mapDelete)
qed

theorem disconnect_rejects_all_pending_witness:
  "pendingRequests
     (snd (sendCommand (snd (sendCommand (onConnection newBridge 0 ''c1'') 10 ''m1'' None ''click'' []))
             20 ''m2'' None ''navigate'' []))
     = [(''m1'', \<lparr>pr_id = ''m1'', pr_promise = 0, pr_timestamp = 10, pr_timeoutId = 0\<rparr>),
        (''m2'', \<lparr>pr_id = ''m2'', pr_promise = 1, pr_timestamp = 20, pr_timeoutId = 1\<rparr>)]
   \<and> pendingRequests
        (onClose (snd (sendCommand (snd (sendCommand (onConnection newBridge 0 ''c1'') 10 ''m1'' None ''click'' []))
                         20 ''m2'' None ''navigate'' [])) ''c1'') = []
   \<and> settled
        (onClose (snd (sendCommand (snd (sendCommand (onConnection newBridge 0 ''c1'') 10 ''m1'' None ''click'' []))
                         20 ''m2'' None ''navigate'' [])) ''c1'') 0
       = Some (Rejected ''Client disconnected'')
   \<and> settled
        (onClose (snd (sendCommand (snd (sendCommand (onConnection newBridge 0 ''c1'') 10 ''m1'' None ''click'' []))
                         20 ''m2'' None ''navigate'' [])) ''c1'') 1
       = Some (Rejected ''Client disconnected'')"
proof -
  let ?b = "snd (sendCommand (snd (sendCommand (onConnection newBridge 0 ''c1'') 10 ''m1'' None ''click'' []))
                   20 ''m2'' None ''navigate'' [])"
  have r: "reachable ?b"
    by (intro reachable.intros)
  have p: "pendingRequests ?b
             = [(''m1'', \<lparr>pr_id = ''m1'', pr_promise = 0, pr_timestamp = 10, pr_timeoutId = 0\<rparr>),
                (''m2'', \<lparr>pr_id = ''m2'', pr_promise = 1, pr_timestamp = 20, pr_timeoutId = 1\<rparr>)]"
    by (simp add: sendCommand_def onConnection_def newBridge_def Let_def)
  from disconnect_rejects_all_pending [OF r, of "''c1''"] p show ?thesis
    by simp
qed

section \<open>Dispatch\<close>

lemma invocations_append [simp]: "invocations (xs @ ys) = invocations xs @ invocations ys"
  by (induction xs rule: invocations.induct) simp_all


lemma sensitiveStage_invocations [simp]: "invocations (sensitiveStage toolName d) = []"
  by (simp add: sensitiveStage_def)

lemma largeBodyStage_invocations [simp]: "invocations (largeBodyStage env toolName args) = []"
  by (simp add: largeBodyStage_def Let_def split: option.splits)
















end
